theory Spec2Isabelle
  imports Main "HOL-Library.Char_ord" "HOL-Library.List_Lexorder" "HOL-Library.Multiset"
    "HOL-Library.Sublist"
begin

section \<open>Values, documents and errors\<close>

text \<open>
  The JavaScript values that occur as field values of documents and as persisted data.
  Numbers are modelled by \<open>int\<close> (the index only ever compares them): the integers
  that a number holds exactly, of magnitude below \<open>2^53\<close>, are meant, and the text of
  such a number is its decimal numeral. Strings are modelled by
  \<open>string\<close>, objects by association lists in property order. A document is an
  object, so it is the property list itself; \<open>JObj d\<close> is the document \<open>d\<close> seen
  as a value. Properties inherited from a prototype are not modelled.
\<close>

datatype jsval =
    JUndefined | JNull | JBool bool | JNum int | JStr string
  | JArr "jsval list" | JObj "(string \<times> jsval) list"

type_synonym doc = "(string \<times> jsval) list"

text \<open>An exception thrown by the JavaScript engine is the left summand of a result.\<close>

datatype error = TypeError | SyntaxError

text \<open>\<open>obj[k]\<close> on an object: the own property, or \<open>undefined\<close>.\<close>

definition property :: "doc \<Rightarrow> string \<Rightarrow> jsval" where
  "property obj k = (case map_of obj k of None \<Rightarrow> JUndefined | Some v \<Rightarrow> v)"

text \<open>
  A property key that is \<open>undefined\<close> is converted to the string \<open>undefined\<close> by the
  engine before the property is read.
\<close>

definition propertyKey :: "string option \<Rightarrow> string" where
  "propertyKey k = (case k of None \<Rightarrow> ''undefined'' | Some s \<Rightarrow> s)"

text \<open>
  \<open>a === b\<close> where at least one of \<open>a\<close> and \<open>b\<close> is a primitive value: equality
  of type and value. Two objects or arrays are equal by \<open>===\<close> exactly when they are
  the same reference; a value of the model is the content of an object and not a
  reference to it, so on two objects or arrays \<open>strict_eq\<close> answers as for two distinct
  references, and a statement on \<open>remove\<close> at arbitrary documents says of the values
  that \<open>remove\<close> compares that one of them is primitive.
\<close>

fun strict_eq :: "jsval \<Rightarrow> jsval \<Rightarrow> bool" where
  "strict_eq JUndefined JUndefined = True"
| "strict_eq JNull JNull = True"
| "strict_eq (JBool a) (JBool b) = (a = b)"
| "strict_eq (JNum a) (JNum b) = (a = b)"
| "strict_eq (JStr a) (JStr b) = (a = b)"
| "strict_eq _ _ = False"

text \<open>A primitive value: neither an object nor an array.\<close>

definition primitive :: "jsval \<Rightarrow> bool" where
  "primitive v = (case v of JArr xs \<Rightarrow> False | JObj ps \<Rightarrow> False | _ \<Rightarrow> True)"

text \<open>\<open>s.split(sep)\<close> for a string separator: the pieces of \<open>s\<close> between the
  occurrences of \<open>sep\<close>, found from the left.\<close>

function split_from :: "string \<Rightarrow> string \<Rightarrow> string \<Rightarrow> string list" where
  "split_from sep cur s =
     (if s = [] then [cur]
      else if sep \<noteq> [] \<and> take (length sep) s = sep
           then cur # split_from sep [] (drop (length sep) s)
           else split_from sep (cur @ [hd s]) (tl s))"
  by pat_completeness auto
termination
  by (relation "measure (\<lambda>(sep, cur, s). length s)") auto

definition split_str :: "string \<Rightarrow> string \<Rightarrow> string list" where
  "split_str s sep = split_from sep [] s"

section \<open>Field path resolver\<close>

text \<open>
  Modelled from the spec: the module \<open>Path\<close> (\<open>sharedPathSolver\<close>) is not among the
  sources. \<open>parse\<close> turns a key specification (field path to \<open>1\<close> or \<open>-1\<close>, in the
  caller's order) into the ordered list of path and direction; \<open>get\<close> resolves a dotted
  path against a value and yields \<open>undefined\<close> when a segment is missing, never an
  error; \<open>parseArr\<close> lists the paths of a specification, leaving out those the
  caller's policy ignores; \<open>Path(key).value\<close> is the resolved value of the path.
\<close>

datatype indexData = IndexData (path: string) (val: int)

definition parse :: "(string \<times> int) list \<Rightarrow> indexData list" where
  "parse spec = map (\<lambda>(p, v). IndexData p v) spec"

fun get_segments :: "jsval \<Rightarrow> string list \<Rightarrow> jsval" where
  "get_segments v [] = v"
| "get_segments (JObj obj) (s # ss) =
     (case map_of obj s of None \<Rightarrow> JUndefined | Some v \<Rightarrow> get_segments v ss)"
| "get_segments _ (s # ss) = JUndefined"

definition get :: "jsval \<Rightarrow> string \<Rightarrow> jsval" where
  "get obj p = get_segments obj (split_str p ''.'')"

definition parseArr :: "(string \<times> 'a) list \<Rightarrow> (string \<Rightarrow> bool) \<Rightarrow> string list" where
  "parseArr spec ignore = filter (\<lambda>p. \<not> ignore p) (map fst spec)"

definition path_value :: "string \<Rightarrow> jsval \<Rightarrow> jsval" where
  "path_value key obj = get obj key"

section \<open>Field comparison\<close>

text \<open>
  Modelled from the spec: the mixin \<open>Mixin.Sorting\<close> with \<open>sortAscIgnoreUndefined\<close>
  and \<open>sortDescIgnoreUndefined\<close> is not among the sources. Two undefined values are
  equal; a defined value sorts greater than an undefined one in either direction;
  otherwise the natural ordering decides, negated for the descending direction. The
  natural ordering is that of the integers on numbers and the lexicographic one on
  strings; of two other values neither is greater.
\<close>

fun sortAsc :: "jsval \<Rightarrow> jsval \<Rightarrow> int" where
  "sortAsc (JNum a) (JNum b) = (if a > b then 1 else if a < b then -1 else 0)"
| "sortAsc (JStr a) (JStr b) = (if a > b then 1 else if a < b then -1 else 0)"
| "sortAsc _ _ = 0"

definition sortAscIgnoreUndefined :: "jsval \<Rightarrow> jsval \<Rightarrow> int" where
  "sortAscIgnoreUndefined a b =
     (if a = JUndefined \<and> b = JUndefined then 0
      else if b = JUndefined then 1
      else if a = JUndefined then -1
      else sortAsc a b)"

definition sortDescIgnoreUndefined :: "jsval \<Rightarrow> jsval \<Rightarrow> int" where
  "sortDescIgnoreUndefined a b =
     (if a = JUndefined \<and> b = JUndefined then 0
      else if b = JUndefined then 1
      else if a = JUndefined then -1
      else - sortAsc a b)"

section \<open>The tree\<close>

text \<open>
  The fields of a \<open>BinaryTree\<close> object other than its two children. \<open>f_data\<close> is
  \<open>None\<close> while \<open>_data\<close> is undefined. \<open>_parent\<close> is written by \<open>insert\<close> and
  read nowhere, so it is left out. The comparator and the hash function are the
  defaults \<open>_compareFunc\<close> and \<open>_hashFunc\<close> of the prototype (the source's leading
  underscore is written \<open>priv_\<close>).
\<close>

record node =
  f_data :: "doc option"
  f_store :: "jsval list"
  f_hash :: jsval
  f_primaryKey :: "string option"
  f_index :: "(string \<times> int) list option"
  f_keys :: "indexData list"

text \<open>A child reference is \<open>Absent\<close> while \<open>_left\<close> or \<open>_right\<close> is undefined.\<close>

datatype tree = Absent | Node node tree tree

definition data_val :: "node \<Rightarrow> jsval" where
  "data_val n = (case f_data n of None \<Rightarrow> JUndefined | Some d \<Rightarrow> JObj d)"

text \<open>The loop of \<open>_compareFunc\<close>, with its variable \<open>result\<close>.\<close>

fun compare_loop :: "indexData list \<Rightarrow> int \<Rightarrow> jsval \<Rightarrow> jsval \<Rightarrow> int" where
  "compare_loop [] result a b = result"
| "compare_loop (indexData # rest) result a b =
     (let result' =
        (if val indexData = 1
           then sortAscIgnoreUndefined (get a (path indexData)) (get b (path indexData))
         else if val indexData = -1
           then sortDescIgnoreUndefined (get a (path indexData)) (get b (path indexData))
         else result)
      in if result' \<noteq> 0 then result' else compare_loop rest result' a b)"

text \<open>What one turn of the loop assigns to \<open>result\<close>, entered with \<open>result = 0\<close>.\<close>

definition field_compare :: "indexData \<Rightarrow> jsval \<Rightarrow> jsval \<Rightarrow> int" where
  "field_compare k a b =
     (if val k = 1 then sortAscIgnoreUndefined (get a (path k)) (get b (path k))
      else if val k = -1 then sortDescIgnoreUndefined (get a (path k)) (get b (path k))
      else 0)"

definition priv_compareFunc :: "indexData list \<Rightarrow> jsval \<Rightarrow> jsval \<Rightarrow> int" where
  "priv_compareFunc ks a b = compare_loop ks 0 a b"

text \<open>\<open>_hashFunc\<close>: \<open>obj[this._keys[0].path]\<close>; reading \<open>path\<close> of a missing first key
  throws.\<close>

definition priv_hashFunc :: "indexData list \<Rightarrow> doc \<Rightarrow> error + jsval" where
  "priv_hashFunc ks obj =
     (case ks of [] \<Rightarrow> Inl TypeError | k # _ \<Rightarrow> Inr (property obj (path k)))"

text \<open>The setter \<open>data(val)\<close> for a defined \<open>val\<close>.\<close>

definition data_set :: "doc \<Rightarrow> node \<Rightarrow> error + node" where
  "data_set v n =
     (case priv_hashFunc (f_keys n) v of
        Inl e \<Rightarrow> Inl e
      | Inr h \<Rightarrow> Inr (n\<lparr>f_data := Some v, f_hash := h\<rparr>))"

text \<open>The constructor: \<open>init(data, index, primaryKey)\<close> with the default comparator and
  hash function.\<close>

definition fresh_node :: node where
  "fresh_node = \<lparr>f_data = None, f_store = [], f_hash = JUndefined, f_primaryKey = None,
                 f_index = None, f_keys = []\<rparr>"

definition init :: "doc option \<Rightarrow> (string \<times> int) list option \<Rightarrow> string option \<Rightarrow> error + node" where
  "init d ix pk =
     (let n0 = fresh_node;
          n1 = (case pk of None \<Rightarrow> n0 | Some k \<Rightarrow> n0\<lparr>f_primaryKey := Some k\<rparr>);
          n2 = (case ix of None \<Rightarrow> n1
                | Some i \<Rightarrow> n1\<lparr>f_keys := parse i, f_index := Some i\<rparr>)
      in case d of None \<Rightarrow> Inr n2 | Some v \<Rightarrow> data_set v n2)"

definition BinaryTree :: "doc option \<Rightarrow> (string \<times> int) list option \<Rightarrow> string option \<Rightarrow> error + tree" where
  "BinaryTree d ix pk =
     (case init d ix pk of Inl e \<Rightarrow> Inl e | Inr n \<Rightarrow> Inr (Node n Absent Absent))"

text \<open>The field \<open>_binaryTree\<close>, which \<open>insert\<close> passes as the primary key of a new child,
  is assigned nowhere in the source: it is undefined on every node.\<close>

definition f_binaryTree :: "node \<Rightarrow> string option" where
  "f_binaryTree n = None"

text \<open>\<open>clear()\<close>.\<close>

definition clear :: "tree \<Rightarrow> tree" where
  "clear t = (case t of Absent \<Rightarrow> Absent
              | Node n l r \<Rightarrow> Node (n\<lparr>f_data := None, f_store := []\<rparr>) Absent Absent)"

subsection \<open>insert\<close>

text \<open>
  \<open>insert(data)\<close> for a single document; the result is the returned boolean and the
  tree after the call. A document is an object and so never falsy: \<open>!this._data\<close>
  holds exactly when the node has no payload. The result of the recursive call is
  dropped by the source, an exception it throws is not.
\<close>

definition insert_child :: "node \<Rightarrow> doc \<Rightarrow> error + tree" where
  "insert_child n d = BinaryTree (Some d) (f_index n) (f_binaryTree n)"

fun insert_bt :: "tree \<Rightarrow> doc \<Rightarrow> error + (bool \<times> tree)" where
  "insert_bt Absent d = Inl TypeError"
| "insert_bt (Node n l r) d =
     (case f_data n of
        None \<Rightarrow>
          (case data_set d n of Inl e \<Rightarrow> Inl e | Inr n' \<Rightarrow> Inr (True, Node n' l r))
      | Some cur \<Rightarrow>
          (let result = priv_compareFunc (f_keys n) (JObj cur) (JObj d) in
           if result = 0 then
             (case l of
                Absent \<Rightarrow>
                  (case insert_child n d of
                     Inl e \<Rightarrow> Inl e | Inr c \<Rightarrow> Inr (True, Node n c r))
              | Node _ _ _ \<Rightarrow>
                  (case insert_bt l d of
                     Inl e \<Rightarrow> Inl e | Inr (_, l') \<Rightarrow> Inr (True, Node n l' r)))
           else if result = -1 then
             (case r of
                Absent \<Rightarrow>
                  (case insert_child n d of
                     Inl e \<Rightarrow> Inl e | Inr c \<Rightarrow> Inr (True, Node n l c))
              | Node _ _ _ \<Rightarrow>
                  (case insert_bt r d of
                     Inl e \<Rightarrow> Inl e | Inr (_, r') \<Rightarrow> Inr (True, Node n l r')))
           else if result = 1 then
             (case l of
                Absent \<Rightarrow>
                  (case insert_child n d of
                     Inl e \<Rightarrow> Inl e | Inr c \<Rightarrow> Inr (True, Node n c r))
              | Node _ _ _ \<Rightarrow>
                  (case insert_bt l d of
                     Inl e \<Rightarrow> Inl e | Inr (_, l') \<Rightarrow> Inr (True, Node n l' r)))
           else Inr (False, Node n l r)))"

text \<open>\<open>insert(data)\<close> for an array: each element in turn, partitioned by the result.\<close>

fun insert_arr :: "tree \<Rightarrow> doc list \<Rightarrow> doc list \<Rightarrow> doc list \<Rightarrow> error + ((doc list \<times> doc list) \<times> tree)" where
  "insert_arr t [] inserted failed = Inr ((inserted, failed), t)"
| "insert_arr t (d # ds) inserted failed =
     (case insert_bt t d of
        Inl e \<Rightarrow> Inl e
      | Inr (ok, t') \<Rightarrow>
          if ok then insert_arr t' ds (inserted @ [d]) failed
          else insert_arr t' ds inserted (failed @ [d]))"

subsection \<open>remove\<close>

text \<open>\<open>leftMost()\<close> and \<open>rightMost()\<close>: the node reached by following one side.\<close>

fun leftMost :: "tree \<Rightarrow> tree" where
  "leftMost Absent = Absent"
| "leftMost (Node n Absent r) = Node n Absent r"
| "leftMost (Node n l r) = leftMost l"

fun rightMost :: "tree \<Rightarrow> tree" where
  "rightMost Absent = Absent"
| "rightMost (Node n l Absent) = Node n l Absent"
| "rightMost (Node n l r) = rightMost r"

text \<open>
  The assignment \<open>t.rightMost()._right = rightNode\<close>: the objects under \<open>t\<close> afterwards.
  The node that \<open>rightMost\<close> returns is \<open>t\<close> itself when \<open>t\<close> has no right child.
\<close>

fun rightMost_assign :: "tree \<Rightarrow> tree \<Rightarrow> tree" where
  "rightMost_assign Absent rightNode = Absent"
| "rightMost_assign (Node n l Absent) rightNode = Node n l rightNode"
| "rightMost_assign (Node n l r) rightNode = Node n l (rightMost_assign r rightNode)"

definition right_child :: "tree \<Rightarrow> tree" where
  "right_child t = (case t of Absent \<Rightarrow> Absent | Node n l r \<Rightarrow> r)"

text \<open>
  \<open>_remove(node)\<close>, called on the node itself. With a left child, the fields \<open>_left\<close>,
  \<open>_right\<close>, \<open>_data\<close> and \<open>_store\<close> of this node are overwritten by those of
  \<open>leftNode\<close>, which is then referenced by no node of the tree; its children are from then
  on shared between it and this node. The assignment through \<open>leftNode.rightMost()\<close>
  therefore reaches this node exactly when it lands on a node under \<open>leftNode._right\<close>:
  when \<open>leftNode\<close> has no right child it writes the field of \<open>leftNode\<close> itself and
  this node keeps the undefined \<open>_right\<close> it has copied. \<open>_hash\<close> is not touched.
\<close>

fun priv_remove :: "tree \<Rightarrow> bool \<times> tree" where
  "priv_remove Absent = (True, Absent)"
| "priv_remove (Node n (Node ln ll lr) rightNode) =
     (let leftNode = Node ln ll lr;
          leftNode' = (case rightNode of
                         Absent \<Rightarrow> leftNode
                       | Node _ _ _ \<Rightarrow> rightMost_assign leftNode rightNode)
      in (True, Node (n\<lparr>f_data := f_data ln, f_store := f_store ln\<rparr>) ll
                  (case lr of Absent \<Rightarrow> Absent | Node _ _ _ \<Rightarrow> right_child leftNode')))"
| "priv_remove (Node n Absent (Node rn rl rr)) =
     (True, Node (n\<lparr>f_data := f_data rn, f_store := f_store rn\<rparr>) rl rr)"
| "priv_remove (Node n Absent Absent) = (True, clear (Node n Absent Absent))"

text \<open>
  \<open>remove(data)\<close> for a single document. \<open>this._data[pk]\<close> throws when the node has no
  payload.
\<close>

fun remove :: "tree \<Rightarrow> doc \<Rightarrow> error + (bool \<times> tree)" where
  "remove Absent d = Inl TypeError"
| "remove (Node n l r) d =
     (let pk = f_primaryKey n in
      case f_data n of
        None \<Rightarrow> Inl TypeError
      | Some cur \<Rightarrow>
          if strict_eq (property cur (propertyKey pk)) (property d (propertyKey pk))
          then Inr (priv_remove (Node n l r))
          else
            (let result = priv_compareFunc (f_keys n) (JObj cur) (JObj d) in
             if result = -1 \<and> r \<noteq> Absent then
               (case remove r d of Inl e \<Rightarrow> Inl e | Inr (b, r') \<Rightarrow> Inr (b, Node n l r'))
             else if result = 1 \<and> l \<noteq> Absent then
               (case remove l d of Inl e \<Rightarrow> Inl e | Inr (b, l') \<Rightarrow> Inr (b, Node n l' r))
             else Inr (False, Node n l r)))"

text \<open>\<open>remove(data)\<close> for an array: the documents whose removal returned true.\<close>

fun remove_arr :: "tree \<Rightarrow> doc list \<Rightarrow> doc list \<Rightarrow> error + (doc list \<times> tree)" where
  "remove_arr t [] removed = Inr (removed, t)"
| "remove_arr t (d # ds) removed =
     (case remove t d of
        Inl e \<Rightarrow> Inl e
      | Inr (ok, t') \<Rightarrow> remove_arr t' ds (if ok then removed @ [d] else removed))"

subsection \<open>Queries\<close>

text \<open>
  The traversals push onto the array \<open>resultArr\<close> that is handed down the recursion; the
  guard \<open>if (this._left)\<close> before a recursive call is the equation for \<open>Absent\<close>. An
  external call passes no array, which is the empty one.
\<close>

fun lookup :: "tree \<Rightarrow> doc \<Rightarrow> jsval list \<Rightarrow> jsval list" where
  "lookup Absent d resultArr = resultArr"
| "lookup (Node n l r) d resultArr =
     (let result = priv_compareFunc (f_keys n) (data_val n) (JObj d);
          a0 = (if result = 0
                then lookup r d (lookup l d resultArr @ [data_val n])
                else resultArr);
          a1 = (if result = -1 then lookup r d a0 else a0)
      in if result = 1 then lookup l d a1 else a1)"

text \<open>An element of the result of \<open>inOrder\<close> and \<open>findRange\<close>: a hash or a payload, or
  the pair \<open>{key, arr}\<close> of the default mode.\<close>

datatype item = Plain jsval | Entry (entry_key: jsval) (entry_arr: "jsval list")

definition item_of :: "string \<Rightarrow> node \<Rightarrow> item" where
  "item_of type n =
     (if type = ''hash'' then Plain (f_hash n)
      else if type = ''data'' then Plain (data_val n)
      else Entry (data_val n) (f_store n))"

fun inOrder :: "tree \<Rightarrow> string \<Rightarrow> item list \<Rightarrow> item list" where
  "inOrder Absent type resultArr = resultArr"
| "inOrder (Node n l r) type resultArr =
     inOrder r type (inOrder l type resultArr @ [item_of type n])"

fun findRange :: "tree \<Rightarrow> string \<Rightarrow> string \<Rightarrow> jsval \<Rightarrow> jsval \<Rightarrow> item list \<Rightarrow> item list" where
  "findRange Absent type key from to resultArr = resultArr"
| "findRange (Node n l r) type key from to resultArr =
     (let a0 = findRange l type key from to resultArr;
          pathVal = path_value key (data_val n);
          fromResult = sortAscIgnoreUndefined pathVal from;
          toResult = sortAscIgnoreUndefined pathVal to;
          a1 = (if (fromResult = 0 \<or> fromResult = 1) \<and> (toResult = 0 \<or> toResult = -1)
                then a0 @ [item_of type n] else a0)
      in findRange r type key from to a1)"

text \<open>
  The array of \<open>startsWith\<close> also carries \<open>_visitedCount\<close> and \<open>_visitedNodes\<close>.
  \<open>thisDataPathVal.substr\<close> exists on strings only: on any other resolved value, the
  undefined one of a missing field included, the call throws.
\<close>

record visitArr =
  items :: "jsval list"
  visitedCount :: nat
  visitedNodes :: "jsval list"

definition emptyArr :: visitArr where
  "emptyArr = \<lparr>items = [], visitedCount = 0, visitedNodes = []\<rparr>"

definition push_if :: "bool \<Rightarrow> jsval \<Rightarrow> visitArr \<Rightarrow> visitArr" where
  "push_if reTest v a = (if reTest then a\<lparr>items := items a @ [v]\<rparr> else a)"

fun startsWith :: "tree \<Rightarrow> string \<Rightarrow> string \<Rightarrow> visitArr \<Rightarrow> error + visitArr" where
  "startsWith Absent p v resultArr = Inr resultArr"
| "startsWith (Node n l r) p v resultArr =
     (case get (data_val n) p of
        JStr thisDataPathVal \<Rightarrow>
          (let thisDataPathValSubStr = take (length v) thisDataPathVal;
               a = resultArr\<lparr>visitedCount := Suc (visitedCount resultArr),
                             visitedNodes := visitedNodes resultArr @ [JStr thisDataPathVal]\<rparr>;
               result = sortAscIgnoreUndefined (JStr thisDataPathValSubStr) (JStr v);
               reTest = (thisDataPathValSubStr = v)
           in case (if result = 0
                    then (case startsWith l p v a of
                            Inl e \<Rightarrow> Inl e
                          | Inr a' \<Rightarrow> startsWith r p v (push_if reTest (data_val n) a'))
                    else Inr a) of
                Inl e \<Rightarrow> Inl e
              | Inr a0 \<Rightarrow>
                 (case (if result = -1
                        then startsWith r p v (push_if reTest (data_val n) a0)
                        else Inr a0) of
                    Inl e \<Rightarrow> Inl e
                  | Inr a1 \<Rightarrow>
                      if result = 1
                      then (case startsWith l p v a1 of
                              Inl e \<Rightarrow> Inl e
                            | Inr a' \<Rightarrow> Inr (push_if reTest (data_val n) a'))
                      else Inr a1))
      | _ \<Rightarrow> Inl TypeError)"

subsection \<open>match\<close>

text \<open>
  \<open>queryArr[i]\<close> is undefined from the length of \<open>queryArr\<close> on, and then not strictly
  equal to the string \<open>indexKeyArr[i]\<close>. The default path options ignore the paths that
  match \<open>/\$/\<close>, those that contain a dollar sign.
\<close>

definition default_ignore :: "string \<Rightarrow> bool" where
  "default_ignore p = (CHR ''$'' \<in> set p)"

fun match_loop :: "string list \<Rightarrow> string list \<Rightarrow> nat list \<Rightarrow> string list \<times> nat \<Rightarrow> string list \<times> nat" where
  "match_loop indexKeyArr queryArr [] acc = acc"
| "match_loop indexKeyArr queryArr (i # rest) (matchedKeys, matchedKeyCount) =
     match_loop indexKeyArr queryArr rest
       (if i < length queryArr \<and> queryArr ! i = indexKeyArr ! i
        then (matchedKeys @ [queryArr ! i], Suc matchedKeyCount)
        else (matchedKeys, matchedKeyCount))"

record matchResult =
  matchedKeys :: "string list"
  totalKeyCount :: nat
  score :: nat

definition indexKeyArr_of :: "node \<Rightarrow> string list" where
  "indexKeyArr_of n = (case f_index n of None \<Rightarrow> [] | Some ix \<Rightarrow> parseArr ix (\<lambda>p. False))"

definition queryArr_of :: "doc \<Rightarrow> (string \<Rightarrow> bool) option \<Rightarrow> string list" where
  "queryArr_of query pathOptions =
     parseArr query (case pathOptions of None \<Rightarrow> default_ignore | Some ig \<Rightarrow> ig)"

definition match :: "node \<Rightarrow> doc \<Rightarrow> (string \<Rightarrow> bool) option \<Rightarrow> matchResult" where
  "match n query pathOptions =
     (let indexKeyArr = indexKeyArr_of n;
          queryArr = queryArr_of query pathOptions;
          (mk, cnt) = match_loop indexKeyArr queryArr [0 ..< length indexKeyArr] ([], 0)
      in \<lparr>matchedKeys = mk, totalKeyCount = length queryArr, score = cnt\<rparr>)"

text \<open>
  The contiguous prefix of the spec's scorer, following its words: the leading positions
  at which the query's field equals the index's field, up to the first mismatch.
\<close>

definition contiguous_prefix :: "string list \<Rightarrow> string list \<Rightarrow> string list" where
  "contiguous_prefix queryArr indexKeyArr =
     map fst (takeWhile (\<lambda>(q, i). q = i) (zip queryArr indexKeyArr))"

section \<open>Reading results\<close>

text \<open>The tree after a call that returned, and what the call returned.\<close>

definition tree_after :: "error + ('a \<times> tree) \<Rightarrow> tree" where
  "tree_after res = (case res of Inl e \<Rightarrow> Absent | Inr (x, t) \<Rightarrow> t)"

definition returned :: "error + ('a \<times> tree) \<Rightarrow> 'a option" where
  "returned res = (case res of Inl e \<Rightarrow> None | Inr (x, t) \<Rightarrow> Some x)"

section \<open>Nodes of a tree and the order among them\<close>

text \<open>The nodes of a tree from left to right, and their payloads.\<close>

fun nodes :: "tree \<Rightarrow> node list" where
  "nodes Absent = []"
| "nodes (Node n l r) = nodes l @ [n] @ nodes r"

definition payloads :: "tree \<Rightarrow> jsval list" where
  "payloads t = map data_val (nodes t)"

text \<open>The nodes below the root.\<close>

definition child_nodes :: "tree \<Rightarrow> node list" where
  "child_nodes t = (case t of Absent \<Rightarrow> [] | Node n l r \<Rightarrow> nodes l @ nodes r)"

text \<open>
  Every node holds a payload and has the key list \<open>ks\<close> and the index \<open>ixo\<close>.
\<close>

definition uniform :: "indexData list \<Rightarrow> (string \<times> int) list option \<Rightarrow> tree \<Rightarrow> bool" where
  "uniform ks ixo t =
     list_all (\<lambda>n. f_keys n = ks \<and> f_index n = ixo \<and> f_data n \<noteq> None) (nodes t)"

text \<open>
  The order that \<open>insert\<close> leaves among the nodes: below the left child of a node are
  the payloads that the comparator, called with the node's payload first, answers with
  \<open>0\<close> or \<open>1\<close>, below the right child those it answers with \<open>-1\<close>.
\<close>

fun ordered :: "indexData list \<Rightarrow> tree \<Rightarrow> bool" where
  "ordered ks Absent = True"
| "ordered ks (Node n l r) =
     (list_all (\<lambda>x. priv_compareFunc ks (data_val n) x = 0
                  \<or> priv_compareFunc ks (data_val n) x = 1) (payloads l)
      \<and> list_all (\<lambda>x. priv_compareFunc ks (data_val n) x = -1) (payloads r)
      \<and> ordered ks l \<and> ordered ks r)"

text \<open>Two values with the same compound key: the same value at every key path.\<close>

definition same_key :: "indexData list \<Rightarrow> jsval \<Rightarrow> jsval \<Rightarrow> bool" where
  "same_key ks a b = list_all (\<lambda>k. get a (path k) = get b (path k)) ks"

text \<open>The value an item stands for.\<close>

definition item_val :: "item \<Rightarrow> jsval" where
  "item_val it = (case it of Plain v \<Rightarrow> v | Entry k a \<Rightarrow> k)"

text \<open>
  \<open>new BinaryTree(undefined, index, primaryKey)\<close> followed by \<open>insert(docs)\<close> on an
  array of documents.
\<close>

definition build :: "(string \<times> int) list \<Rightarrow> string option \<Rightarrow> doc list \<Rightarrow> error + ((doc list \<times> doc list) \<times> tree)" where
  "build ix pk docs =
     (case BinaryTree None (Some ix) pk of
        Inl e \<Rightarrow> Inl e
      | Inr t \<Rightarrow> insert_arr t docs [] [])"

text \<open>The node that \<open>insert\<close> constructs for a child branch under the index \<open>ix\<close>.\<close>

definition leaf :: "(string \<times> int) list \<Rightarrow> doc \<Rightarrow> node" where
  "leaf ix d = \<lparr>f_data = Some d, f_store = [], f_hash = property d (path (hd (parse ix))),
     f_primaryKey = None, f_index = Some ix, f_keys = parse ix\<rparr>"

text \<open>
  The bounds of the spec's range scan, following its words: \<open>from <= v <= to\<close>, where
  \<open>a <= b\<close> says that the ascending comparison does not put \<open>a\<close> after \<open>b\<close>.
\<close>

definition natural_le :: "jsval \<Rightarrow> jsval \<Rightarrow> bool" where
  "natural_le a b = (sortAscIgnoreUndefined a b = 0 \<or> sortAscIgnoreUndefined a b = -1)"

definition within :: "jsval \<Rightarrow> jsval \<Rightarrow> jsval \<Rightarrow> bool" where
  "within from to v = (natural_le from v \<and> natural_le v to)"

text \<open>
  The prefix search of the spec, following its words: the documents whose resolved
  string field has \<open>v\<close> as a literal prefix.
\<close>

definition is_string :: "jsval \<Rightarrow> bool" where
  "is_string x = (case x of JStr s \<Rightarrow> True | _ \<Rightarrow> False)"

definition has_prefix :: "string \<Rightarrow> string \<Rightarrow> jsval \<Rightarrow> bool" where
  "has_prefix p v x = (case get x p of JStr s \<Rightarrow> prefix v s | _ \<Rightarrow> False)"

text \<open>The documents that a call of \<open>startsWith\<close> returned.\<close>

definition found_items :: "error + visitArr \<Rightarrow> jsval list option" where
  "found_items res = (case res of Inl e \<Rightarrow> None | Inr a \<Rightarrow> Some (items a))"

text \<open>A sequence of single-document calls on a tree, stopping at the first exception.\<close>

datatype call = Insert doc | Remove doc

fun run :: "tree \<Rightarrow> call list \<Rightarrow> error + tree" where
  "run t [] = Inr t"
| "run t (Insert d # cs) =
     (case insert_bt t d of Inl e \<Rightarrow> Inl e | Inr (b, t') \<Rightarrow> run t' cs)"
| "run t (Remove d # cs) =
     (case remove t d of Inl e \<Rightarrow> Inl e | Inr (b, t') \<Rightarrow> run t' cs)"

text \<open>No node of the tree has a primary key.\<close>

definition unkeyed :: "tree \<Rightarrow> bool" where
  "unkeyed t = list_all (\<lambda>n. f_primaryKey n = None) (nodes t)"

text \<open>
  A call on a tree whose root has the primary key \<open>pk\<close>: a removal reads of its
  document the property \<open>pk\<close> at the root and the property named \<open>undefined\<close> at a
  node without primary key; both values are primitive.
\<close>

definition primitive_keys :: "string option \<Rightarrow> call \<Rightarrow> bool" where
  "primitive_keys pk c =
     (case c of
        Insert d \<Rightarrow> True
      | Remove d \<Rightarrow> primitive (property d (propertyKey pk)) \<and> primitive (property d ''undefined''))"

section \<open>The splice on the object store\<close>

text \<open>
  \<open>_remove\<close> is the one function of the tree that writes through a reference it has
  just copied, so it is also modelled on an explicit store of objects: a reference is a
  number, an object holds the fields of a node and the references \<open>_left\<close> and
  \<open>_right\<close>, which are \<open>None\<close> while undefined. A result \<open>None\<close> stands for a
  call that does not return (a cycle of \<open>_right\<close> references) or meets a reference
  without an object.
\<close>

type_synonym ref = nat

record obj =
  o_fields :: node
  o_left :: "ref option"
  o_right :: "ref option"

type_synonym store = "ref \<Rightarrow> obj option"

text \<open>\<open>rightMost()\<close>: the reference it returns.\<close>

partial_function (option) rightMost_store :: "store \<Rightarrow> ref \<Rightarrow> ref option" where
  "rightMost_store h this =
     (case h this of
        None \<Rightarrow> None
      | Some ob \<Rightarrow>
          (case o_right ob of
             None \<Rightarrow> Some this
           | Some r \<Rightarrow> rightMost_store h r))"

text \<open>\<open>_remove(node)\<close>, statement by statement.\<close>

definition priv_remove_store :: "store \<Rightarrow> ref \<Rightarrow> (bool \<times> store) option" where
  "priv_remove_store h this =
     (case h this of
        None \<Rightarrow> None
      | Some t \<Rightarrow>
          (case o_left t of
             Some leftNode \<Rightarrow>
               (case h leftNode of
                  None \<Rightarrow> None
                | Some ln \<Rightarrow>
                    (let rightNode = o_right t;
                         h1 = h(this \<mapsto> t\<lparr>o_left := o_left ln, o_right := o_right ln,
                                 o_fields := (o_fields t)\<lparr>f_data := f_data (o_fields ln),
                                                          f_store := f_store (o_fields ln)\<rparr>\<rparr>)
                     in case rightNode of
                          None \<Rightarrow> Some (True, h1)
                        | Some rn \<Rightarrow>
                            (case rightMost_store h1 leftNode of
                               None \<Rightarrow> None
                             | Some m \<Rightarrow>
                                 (case h1 m of
                                    None \<Rightarrow> None
                                  | Some mo \<Rightarrow> Some (True, h1(m \<mapsto> mo\<lparr>o_right := Some rn\<rparr>))))))
           | None \<Rightarrow>
               (case o_right t of
                  Some rightNode \<Rightarrow>
                    (case h rightNode of
                       None \<Rightarrow> None
                     | Some rn \<Rightarrow>
                         Some (True, h(this \<mapsto> t\<lparr>o_left := o_left rn, o_right := o_right rn,
                                 o_fields := (o_fields t)\<lparr>f_data := f_data (o_fields rn),
                                                          f_store := f_store (o_fields rn)\<rparr>\<rparr>)))
                | None \<Rightarrow>
                    Some (True, h(this \<mapsto> t\<lparr>o_left := None, o_right := None,
                                 o_fields := (o_fields t)\<lparr>f_data := None, f_store := []\<rparr>\<rparr>)))))"

text \<open>
  The store holds the tree \<open>t\<close> at the reference \<open>ro\<close>; the references of its
  objects there, which are distinct when no object is shared.
\<close>

fun rep :: "store \<Rightarrow> ref option \<Rightarrow> tree \<Rightarrow> bool" where
  "rep h ro Absent = (ro = None)"
| "rep h ro (Node n l r) =
     (case ro of
        None \<Rightarrow> False
      | Some a \<Rightarrow>
          (case h a of
             None \<Rightarrow> False
           | Some ob \<Rightarrow> o_fields ob = n \<and> rep h (o_left ob) l \<and> rep h (o_right ob) r))"

fun addrs :: "store \<Rightarrow> ref option \<Rightarrow> tree \<Rightarrow> ref list" where
  "addrs h ro Absent = []"
| "addrs h ro (Node n l r) =
     (case ro of
        None \<Rightarrow> []
      | Some a \<Rightarrow>
          (case h a of
             None \<Rightarrow> [a]
           | Some ob \<Rightarrow> a # addrs h (o_left ob) l @ addrs h (o_right ob) r))"

section \<open>Persistence: the encode and decode steps\<close>

text \<open>
  Modelled from the spec: the mixin \<open>Mixin.Common\<close> with \<open>jStringify\<close> and \<open>jParse\<close> is
  not among the sources, and the spec leaves the persisted payload opaque. \<open>jStringify\<close>
  is taken as the JSON text of a value, as \<open>JSON.stringify\<close> writes it (no white space,
  properties in order, undefined properties left out, undefined array elements as
  \<open>null\<close>); \<open>jParse\<close> is a parameter of the decode step: any function from the value
  it is given to the parsed value or an exception.
\<close>

function show_nat :: "nat \<Rightarrow> string" where
  "show_nat n = (if n < 10 then [''0123456789'' ! n]
                 else show_nat (n div 10) @ [''0123456789'' ! (n mod 10)])"
  by pat_completeness auto
termination
  by (relation "measure (\<lambda>n. n)") auto

definition show_int :: "int \<Rightarrow> string" where
  "show_int i = (if i < 0 then CHR ''-'' # show_nat (nat (- i)) else show_nat (nat i))"

definition escape_char :: "char \<Rightarrow> string" where
  "escape_char c =
     (if c = CHR 0x22 then [CHR 0x5C, CHR 0x22]
      else if c = CHR 0x5C then [CHR 0x5C, CHR 0x5C]
      else if c = CHR 0x08 then [CHR 0x5C, CHR ''b'']
      else if c = CHR 0x0C then [CHR 0x5C, CHR ''f'']
      else if c = CHR 0x0A then [CHR 0x5C, CHR ''n'']
      else if c = CHR 0x0D then [CHR 0x5C, CHR ''r'']
      else if c = CHR 0x09 then [CHR 0x5C, CHR ''t'']
      else if (of_char c :: nat) < 32
        then [CHR 0x5C, CHR ''u'', CHR ''0'', CHR ''0'',
              ''0123456789abcdef'' ! (of_char c div 16), ''0123456789abcdef'' ! (of_char c mod 16)]
      else [c])"

definition quote :: "string \<Rightarrow> string" where
  "quote s = CHR 0x22 # concat (map escape_char s) @ [CHR 0x22]"

fun join :: "string \<Rightarrow> string list \<Rightarrow> string" where
  "join sep [] = []"
| "join sep [x] = x"
| "join sep (x # y # ys) = x @ sep @ join sep (y # ys)"

fun jStringify :: "jsval \<Rightarrow> string" where
  "jStringify JUndefined = ''null''"
| "jStringify JNull = ''null''"
| "jStringify (JBool b) = (if b then ''true'' else ''false'')"
| "jStringify (JNum n) = show_int n"
| "jStringify (JStr s) = quote s"
| "jStringify (JArr xs) = ''['' @ join '','' (map jStringify xs) @ '']''"
| "jStringify (JObj ps) =
     ''{'' @ join '','' (map (\<lambda>(k, v). quote k @ '':'' @ jStringify v)
                          (filter (\<lambda>(k, v). v \<noteq> JUndefined) ps)) @ ''}''"

text \<open>
  What the steps read of a value: whether \<open>typeof\<close> answers \<open>object\<close>, its
  truthiness, its property \<open>length\<close>, and its conversion to a string by \<open>+\<close>, which
  only a primitive value reaches. A number is written as its decimal numeral, which is
  its text for the integers of magnitude below \<open>2^53\<close> that the values stand for.
\<close>

definition typeof_object :: "jsval \<Rightarrow> bool" where
  "typeof_object v = (case v of JNull \<Rightarrow> True | JArr xs \<Rightarrow> True | JObj ps \<Rightarrow> True | _ \<Rightarrow> False)"

definition truthy :: "jsval \<Rightarrow> bool" where
  "truthy v =
     (case v of
        JUndefined \<Rightarrow> False | JNull \<Rightarrow> False | JBool b \<Rightarrow> b | JNum n \<Rightarrow> n \<noteq> 0
      | JStr s \<Rightarrow> s \<noteq> [] | JArr xs \<Rightarrow> True | JObj ps \<Rightarrow> True)"

definition length_of :: "jsval \<Rightarrow> jsval" where
  "length_of v =
     (case v of
        JStr s \<Rightarrow> JNum (int (length s)) | JArr xs \<Rightarrow> JNum (int (length xs))
      | JObj ps \<Rightarrow> property ps ''length'' | _ \<Rightarrow> JUndefined)"

definition to_string :: "jsval \<Rightarrow> string" where
  "to_string v =
     (case v of
        JUndefined \<Rightarrow> ''undefined'' | JNull \<Rightarrow> ''null''
      | JBool b \<Rightarrow> (if b then ''true'' else ''false'')
      | JNum n \<Rightarrow> show_int n | JStr s \<Rightarrow> s
      | JArr xs \<Rightarrow> join '','' (map jStringify xs) | JObj ps \<Rightarrow> ''[object Object]'')"

record meta =
  foundData :: bool
  rowCount :: jsval

definition set_found :: "jsval \<Rightarrow> meta \<Rightarrow> meta" where
  "set_found d m =
     (if truthy d then m\<lparr>foundData := True, rowCount := length_of d\<rparr>
      else m\<lparr>foundData := False\<rparr>)"

text \<open>\<open>_encode(val, meta, finished)\<close>, with \<open>v\<close> for \<open>val\<close>: the value and the meta
  data handed to \<open>finished\<close>.\<close>

definition priv_encode :: "jsval \<Rightarrow> meta \<Rightarrow> string \<times> meta" where
  "priv_encode v m =
     (let d = v;
          v' = (if typeof_object v then ''json::fdb::'' @ jStringify v
                else ''raw::fdb::'' @ to_string v)
      in (v', set_found d m))"

text \<open>
  \<open>_decode(val, meta, finished)\<close> for a string \<open>val\<close>, which is falsy when empty.
  \<open>parts[1]\<close> is undefined when the separator does not occur.
\<close>

definition priv_decode :: "(jsval \<Rightarrow> error + jsval) \<Rightarrow> string \<Rightarrow> meta \<Rightarrow> error + (jsval \<times> meta)" where
  "priv_decode jParse v m =
     (if v \<noteq> [] then
        (let parts = split_str v ''::fdb::'';
             part1 = (if 1 < length parts then JStr (parts ! 1) else JUndefined)
         in case (if hd parts = ''json'' then jParse part1
                  else if hd parts = ''raw'' then Inr part1
                  else Inr JUndefined) of
              Inl e \<Rightarrow> Inl e
            | Inr d \<Rightarrow> Inr (d, set_found d m))
      else Inr (JStr v, m\<lparr>foundData := False, rowCount := JNum 0\<rparr>))"

text \<open>The separator occurs in a text.\<close>

definition occurs :: "string \<Rightarrow> string \<Rightarrow> bool" where
  "occurs sep s = list_ex (\<lambda>k. take (length sep) (drop k s) = sep) [0 ..< Suc (length s)]"

section \<open>The scorer\<close>

lemma match_loop_positions:
  "match_loop ix q is (mk, c) =
     (mk @ map (\<lambda>i. q ! i) (filter (\<lambda>i. i < length q \<and> q ! i = ix ! i) is),
      c + length (filter (\<lambda>i. i < length q \<and> q ! i = ix ! i) is))"
  by (induction "is" arbitrary: mk c) auto

lemma upt_0_Suc: "[0 ..< Suc n] = 0 # map Suc [0 ..< n]"
  by (simp add: upt_conv_Cons map_Suc_upt del: upt_Suc)

lemma positions_zip:
  "map (\<lambda>i. q ! i) (filter (\<lambda>i. i < length q \<and> q ! i = ix ! i) [0 ..< length ix])
   = map fst (filter (\<lambda>(a, b). a = b) (zip q ix))"
proof (induction q arbitrary: ix)
  case Nil
  then show ?case by simp
next
  case (Cons a q)
  show ?case
  proof (cases ix)
    case Nil
    then show ?thesis by simp
  next
    case (Cons b ix')
    have "\<And>x. map (\<lambda>i. (x # q) ! i)
              (filter (\<lambda>i. i < length (x # q) \<and> (x # q) ! i = (b # ix') ! i)
                 (map Suc [0 ..< length ix']))
        = map (\<lambda>i. q ! i) (filter (\<lambda>i. i < length q \<and> q ! i = ix' ! i) [0 ..< length ix'])"
      by (simp add: filter_map comp_def)
    with Cons.IH [of ix'] Cons show ?thesis
      by (simp add: upt_0_Suc del: upt_Suc)
  qed
qed

lemma match_eq:
  "match n query po =
     \<lparr>matchedKeys = map fst (filter (\<lambda>(a, b). a = b) (zip (queryArr_of query po) (indexKeyArr_of n))),
      totalKeyCount = length (queryArr_of query po),
      score = length (filter (\<lambda>(a, b). a = b) (zip (queryArr_of query po) (indexKeyArr_of n)))\<rparr>"
proof -
  have "length (filter (\<lambda>i. i < length q \<and> q ! i = ix ! i) [0 ..< length ix])
        = length (filter (\<lambda>(a, b). a = b) (zip q ix))" for q ix :: "string list"
    using arg_cong [OF positions_zip [of q ix], of length] by simp
  then show ?thesis
    by (simp add: match_def Let_def match_loop_positions positions_zip)
qed

text \<open>
  C5 (as the code has it). \<open>match\<close> counts every position below the index's length at
  which the query's field equals the index's field: \<open>matchedKeys\<close> lists those fields in
  order and \<open>score\<close> is their number, whether or not an earlier position differed;
  \<open>totalKeyCount\<close> is the full length of the parsed query. For the index
  \<open>[a, b, c]\<close> a query over \<open>[a, b]\<close> scores 2 with matched keys \<open>[a, b]\<close>, and a
  query over \<open>[b, c]\<close> scores 0.
\<close>

theorem match_counts_every_agreeing_position:
  "matchedKeys (match n query po)
     = map fst (filter (\<lambda>(q, i). q = i) (zip (queryArr_of query po) (indexKeyArr_of n)))
   \<and> score (match n query po) = length (matchedKeys (match n query po))
   \<and> totalKeyCount (match n query po) = length (queryArr_of query po)
   \<and> match (n\<lparr>f_index := Some [(''a'', 1), (''b'', 1), (''c'', 1)]\<rparr>)
         [(''a'', x), (''b'', y)] None
       = \<lparr>matchedKeys = [''a'', ''b''], totalKeyCount = 2, score = 2\<rparr>
   \<and> match (n\<lparr>f_index := Some [(''a'', 1), (''b'', 1), (''c'', 1)]\<rparr>)
         [(''b'', x), (''c'', y)] None
       = \<lparr>matchedKeys = [], totalKeyCount = 2, score = 0\<rparr>"
  by (simp add: match_eq queryArr_of_def indexKeyArr_of_def parseArr_def default_ignore_def)

text \<open>
  C5 as the spec states it fails: with the index \<open>[a, b, c]\<close> and a query over
  \<open>[a, x, c]\<close> the position of \<open>c\<close> still counts after the mismatch at \<open>x\<close>, so
  the matched keys are \<open>[a, c]\<close> and the score is 2, where the contiguous prefix is
  \<open>[a]\<close>.
\<close>

theorem match_counts_past_a_mismatch:
  "matchedKeys (match (fresh_node\<lparr>f_index := Some [(''a'', 1), (''b'', 1), (''c'', 1)]\<rparr>)
                  [(''a'', JNum 1), (''x'', JNum 2), (''c'', JNum 3)] None) = [''a'', ''c'']
   \<and> score (match (fresh_node\<lparr>f_index := Some [(''a'', 1), (''b'', 1), (''c'', 1)]\<rparr>)
                  [(''a'', JNum 1), (''x'', JNum 2), (''c'', JNum 3)] None) = 2
   \<and> contiguous_prefix [''a'', ''x'', ''c''] [''a'', ''b'', ''c''] = [''a'']
   \<and> matchedKeys (match (fresh_node\<lparr>f_index := Some [(''a'', 1), (''b'', 1), (''c'', 1)]\<rparr>)
                  [(''a'', JNum 1), (''x'', JNum 2), (''c'', JNum 3)] None)
       \<noteq> contiguous_prefix
            (queryArr_of [(''a'', JNum 1), (''x'', JNum 2), (''c'', JNum 3)] None)
            (indexKeyArr_of (fresh_node\<lparr>f_index := Some [(''a'', 1), (''b'', 1), (''c'', 1)]\<rparr>))"
  by (simp add: match_eq queryArr_of_def indexKeyArr_of_def parseArr_def default_ignore_def
                contiguous_prefix_def fresh_node_def)

section \<open>The compound comparator\<close>

text \<open>The loop returns the comparison of the first key whose field does not compare
  equal; a key whose value is neither \<open>1\<close> nor \<open>-1\<close> compares equal.\<close>

lemma compare_loop_find:
  "compare_loop ks 0 a b =
    (case find (\<lambda>k. field_compare k a b \<noteq> 0) ks of
       None \<Rightarrow> 0 | Some k \<Rightarrow> field_compare k a b)"
  by (induction ks) (auto simp: Let_def field_compare_def)


lemma sortAsc_range: "sortAsc a b = -1 \<or> sortAsc a b = 0 \<or> sortAsc a b = 1"
  by (cases "(a, b)" rule: sortAsc.cases) auto

lemma sortAsc_antisym: "sortAsc b a = - sortAsc a b"
  by (cases "(a, b)" rule: sortAsc.cases) auto

lemma sortAsc_refl: "sortAsc a a = 0"
  by (cases a) auto

lemma field_compare_range:
  "field_compare k a b = -1 \<or> field_compare k a b = 0 \<or> field_compare k a b = 1"
  using sortAsc_range [of "get a (path k)" "get b (path k)"]
  by (auto simp: field_compare_def sortAscIgnoreUndefined_def sortDescIgnoreUndefined_def)

lemma field_compare_antisym: "field_compare k b a = - field_compare k a b"
  using sortAsc_antisym [of "get a (path k)" "get b (path k)"]
  by (auto simp: field_compare_def sortAscIgnoreUndefined_def sortDescIgnoreUndefined_def)

lemma compareFunc_Nil: "priv_compareFunc [] a b = 0"
  by (simp add: priv_compareFunc_def)

lemma compareFunc_Cons:
  "priv_compareFunc (k # ks) a b =
     (if field_compare k a b \<noteq> 0 then field_compare k a b else priv_compareFunc ks a b)"
  by (simp add: priv_compareFunc_def compare_loop_find)

lemma compareFunc_range:
  "priv_compareFunc ks a b = -1 \<or> priv_compareFunc ks a b = 0 \<or> priv_compareFunc ks a b = 1"
proof (induction ks)
  case Nil
  show ?case by (simp add: compareFunc_Nil)
next
  case (Cons k ks)
  with field_compare_range [of k a b] show ?case
    by (auto simp: compareFunc_Cons)
qed

lemma compareFunc_antisym: "priv_compareFunc ks b a = - priv_compareFunc ks a b"
proof (induction ks)
  case Nil
  show ?case by (simp add: compareFunc_Nil)
next
  case (Cons k ks)
  with field_compare_antisym [of k b a] show ?case
    by (simp add: compareFunc_Cons)
qed

lemma field_compare_same_key:
  "get b (path k) = get b' (path k) \<Longrightarrow> field_compare k a b = field_compare k a b'"
  by (simp add: field_compare_def)

lemma compareFunc_same_key:
  "same_key ks b b' \<Longrightarrow> priv_compareFunc ks a b = priv_compareFunc ks a b'"
  by (induction ks) (auto simp: compareFunc_Nil compareFunc_Cons same_key_def field_compare_def)

lemma compareFunc_refl_key:
  "same_key ks a b \<Longrightarrow> priv_compareFunc ks a b = 0"
  by (induction ks) (auto simp: compareFunc_Nil compareFunc_Cons same_key_def field_compare_def
        sortAscIgnoreUndefined_def sortDescIgnoreUndefined_def sortAsc_refl)

text \<open>
  C6. \<open>_compareFunc\<close> goes through the keys in the order of the specification and
  returns the comparison of the first field that does not compare equal, or \<open>0\<close> when
  every field compares equal. For a key of direction \<open>1\<close> or \<open>-1\<close>: two undefined
  field values compare equal; a defined value against an undefined one gives \<open>1\<close>, an
  undefined against a defined one \<open>-1\<close>, in either direction; two defined values
  compare by the natural ordering, negated when the direction is \<open>-1\<close>.
\<close>

theorem compareFunc_first_unequal_field:
  "priv_compareFunc ks a b =
     (case find (\<lambda>k. field_compare k a b \<noteq> 0) ks of
        None \<Rightarrow> 0 | Some k \<Rightarrow> field_compare k a b)
   \<and> (val k = 1 \<or> val k = -1 \<longrightarrow>
        (get a (path k) = JUndefined \<and> get b (path k) = JUndefined
           \<longrightarrow> field_compare k a b = 0)
      \<and> (get a (path k) \<noteq> JUndefined \<and> get b (path k) = JUndefined
           \<longrightarrow> field_compare k a b = 1)
      \<and> (get a (path k) = JUndefined \<and> get b (path k) \<noteq> JUndefined
           \<longrightarrow> field_compare k a b = -1)
      \<and> (get a (path k) \<noteq> JUndefined \<and> get b (path k) \<noteq> JUndefined
           \<longrightarrow> field_compare k a b =
                 (if val k = -1 then - sortAsc (get a (path k)) (get b (path k))
                  else sortAsc (get a (path k)) (get b (path k)))))"
  by (auto simp: priv_compareFunc_def compare_loop_find field_compare_def
                 sortAscIgnoreUndefined_def sortDescIgnoreUndefined_def)

theorem compareFunc_first_unequal_field_witness:
  "priv_compareFunc (parse [(''a'', 1), (''b'', -1)])
      (JObj [(''a'', JNum 1), (''b'', JNum 2)]) (JObj [(''a'', JNum 1)]) = 1
   \<and> val (IndexData ''b'' (-1)) = -1
   \<and> get (JObj [(''a'', JNum 1), (''b'', JNum 2)]) (path (IndexData ''b'' (-1))) \<noteq> JUndefined
   \<and> get (JObj [(''a'', JNum 1)]) (path (IndexData ''b'' (-1))) = JUndefined
   \<and> field_compare (IndexData ''b'' (-1))
        (JObj [(''a'', JNum 1), (''b'', JNum 2)]) (JObj [(''a'', JNum 1)]) = 1
   \<and> field_compare (IndexData ''b'' (-1))
        (JObj [(''a'', JNum 1)]) (JObj [(''a'', JNum 1), (''b'', JNum 2)]) = -1
   \<and> get (JObj [(''a'', JNum 1)]) (path (IndexData ''c'' 1)) = JUndefined
   \<and> field_compare (IndexData ''c'' 1)
        (JObj [(''a'', JNum 1)]) (JObj [(''a'', JNum 1), (''b'', JNum 2)]) = 0
   \<and> get (JObj [(''a'', JNum 1)]) (path (IndexData ''a'' (-1))) \<noteq> JUndefined
   \<and> get (JObj [(''a'', JNum 2)]) (path (IndexData ''a'' (-1))) \<noteq> JUndefined
   \<and> field_compare (IndexData ''a'' (-1)) (JObj [(''a'', JNum 1)]) (JObj [(''a'', JNum 2)])
       = - sortAsc (JNum 1) (JNum 2)
   \<and> field_compare (IndexData ''a'' (-1)) (JObj [(''a'', JNum 1)]) (JObj [(''a'', JNum 2)]) = 1"
proof -
  have g: "get (JObj [(''a'', JNum 1), (''b'', JNum 2)]) ''b'' = JNum 2"
    "get (JObj [(''a'', JNum 1)]) ''b'' = JUndefined"
    "get (JObj [(''a'', JNum 1)]) ''c'' = JUndefined"
    "get (JObj [(''a'', JNum 1), (''b'', JNum 2)]) ''c'' = JUndefined"
    "get (JObj [(''a'', JNum 1)]) ''a'' = JNum 1"
    "get (JObj [(''a'', JNum 2)]) ''a'' = JNum 2"
    "get (JObj [(''a'', JNum 1), (''b'', JNum 2)]) ''a'' = JNum 1"
    by (simp_all add: get_def split_str_def)
  note t1 = compareFunc_first_unequal_field
          [of "parse [(''a'', 1), (''b'', -1)]" "JObj [(''a'', JNum 1), (''b'', JNum 2)]"
              "JObj [(''a'', JNum 1)]" "IndexData ''b'' (-1)"]
  note t2 = compareFunc_first_unequal_field
          [of "[]" "JObj [(''a'', JNum 1)]" "JObj [(''a'', JNum 1), (''b'', JNum 2)]"
              "IndexData ''b'' (-1)"]
  note t3 = compareFunc_first_unequal_field
          [of "[]" "JObj [(''a'', JNum 1)]" "JObj [(''a'', JNum 1), (''b'', JNum 2)]"
              "IndexData ''c'' 1"]
  note t4 = compareFunc_first_unequal_field
          [of "[]" "JObj [(''a'', JNum 1)]" "JObj [(''a'', JNum 2)]" "IndexData ''a'' (-1)"]
  have f1: "field_compare (IndexData ''b'' (-1))
        (JObj [(''a'', JNum 1), (''b'', JNum 2)]) (JObj [(''a'', JNum 1)]) = 1"
    using t1 g by simp
  have f2: "field_compare (IndexData ''b'' (-1))
        (JObj [(''a'', JNum 1)]) (JObj [(''a'', JNum 1), (''b'', JNum 2)]) = -1"
    using t2 g by simp
  have f3: "field_compare (IndexData ''c'' 1)
        (JObj [(''a'', JNum 1)]) (JObj [(''a'', JNum 1), (''b'', JNum 2)]) = 0"
    using t3 g by simp
  have f4: "field_compare (IndexData ''a'' (-1)) (JObj [(''a'', JNum 1)]) (JObj [(''a'', JNum 2)])
       = - sortAsc (JNum 1) (JNum 2)"
    using t4 g by simp
  have f0: "field_compare (IndexData ''a'' 1)
        (JObj [(''a'', JNum 1), (''b'', JNum 2)]) (JObj [(''a'', JNum 1)]) = 0"
    using g by (simp add: field_compare_def sortAscIgnoreUndefined_def)
  have c: "priv_compareFunc (parse [(''a'', 1), (''b'', -1)])
      (JObj [(''a'', JNum 1), (''b'', JNum 2)]) (JObj [(''a'', JNum 1)]) = 1"
    using t1 f0 f1 by (simp add: parse_def)
  from c f1 f2 f3 f4 g show ?thesis by simp
qed

section \<open>Insertion\<close>

lemma insert_bt_routes:
  assumes "f_data n = Some cur"
  shows "insert_bt (Node n l r) d =
    (if priv_compareFunc (f_keys n) (JObj cur) (JObj d) = -1
     then (case r of
             Absent \<Rightarrow> (case insert_child n d of
                          Inl e \<Rightarrow> Inl e | Inr c \<Rightarrow> Inr (True, Node n l c))
           | Node _ _ _ \<Rightarrow> (case insert_bt r d of
                              Inl e \<Rightarrow> Inl e | Inr (_, r') \<Rightarrow> Inr (True, Node n l r')))
     else (case l of
             Absent \<Rightarrow> (case insert_child n d of
                          Inl e \<Rightarrow> Inl e | Inr c \<Rightarrow> Inr (True, Node n c r))
           | Node _ _ _ \<Rightarrow> (case insert_bt l d of
                              Inl e \<Rightarrow> Inl e | Inr (_, l') \<Rightarrow> Inr (True, Node n l' r))))"
  using assms compareFunc_range [of "f_keys n" "JObj cur" "JObj d"]
  by (auto simp: Let_def)

lemma insert_child_leaf:
  assumes "f_index n = Some ix" "parse ix \<noteq> []"
  shows "insert_child n d = Inr (Node (leaf ix d) Absent Absent)"
  using assms
  by (cases "parse ix")
     (simp_all add: insert_child_def BinaryTree_def init_def f_binaryTree_def data_set_def
        priv_hashFunc_def fresh_node_def leaf_def)

lemma insert_bt_uniform:
  assumes ks: "parse ix = ks" "ks \<noteq> []"
  shows "t \<noteq> Absent \<Longrightarrow> uniform ks (Some ix) t \<Longrightarrow>
     \<exists>t'. insert_bt t d = Inr (True, t') \<and> t' \<noteq> Absent \<and> uniform ks (Some ix) t'
        \<and> mset (nodes t') = add_mset (leaf ix d) (mset (nodes t))
        \<and> (ordered ks t \<longrightarrow> ordered ks t')
        \<and> (case t of Node n l r \<Rightarrow> \<exists>l' r'. t' = Node n l' r')"
proof (induction t)
  case Absent
  then show ?case by simp
next
  case (Node n l r)
  from Node.prems obtain cur where cur: "f_data n = Some cur"
    and n: "f_keys n = ks" "f_index n = Some ix"
    and ul: "uniform ks (Some ix) l" and ur: "uniform ks (Some ix) r"
    by (auto simp: uniform_def)
  have leafu: "uniform ks (Some ix) (Node (leaf ix d) Absent Absent)"
    by (simp add: uniform_def leaf_def ks)
  have leafo: "ordered ks (Node (leaf ix d) Absent Absent)"
    by (simp add: payloads_def)
  have dv: "data_val n = JObj cur" "data_val (leaf ix d) = JObj d"
    by (simp_all add: data_val_def cur leaf_def)
  note ic = insert_child_leaf [OF n(2), of d] 
  show ?case
  proof (cases "priv_compareFunc ks (JObj cur) (JObj d) = -1")
    case True
    show ?thesis
    proof (cases r)
      case Absent
      with True ks cur n ul leafu leafo dv show ?thesis
        by (simp add: insert_bt_routes [OF cur] ic uniform_def payloads_def del: insert_bt.simps)
    next
      case (Node rn rl rr)
      with Node.IH(2) ur obtain r' where r': "insert_bt r d = Inr (True, r')" "r' \<noteq> Absent"
        "uniform ks (Some ix) r'" "mset (nodes r') = add_mset (leaf ix d) (mset (nodes r))"
        "ordered ks r \<longrightarrow> ordered ks r'"
        by auto
      have "set (nodes r') = insert (leaf ix d) (set (nodes r))"
        using arg_cong [OF r'(4), of set_mset] by simp
      with True ks cur n ul r' Node dv show ?thesis
        by (auto simp: insert_bt_routes [OF cur] uniform_def payloads_def list_all_iff simp del: insert_bt.simps)
    qed
  next
    case False
    then have c: "priv_compareFunc ks (JObj cur) (JObj d) = 0 \<or> priv_compareFunc ks (JObj cur) (JObj d) = 1"
      using compareFunc_range [of ks "JObj cur" "JObj d"] by auto
    show ?thesis
    proof (cases l)
      case Absent
      with False c ks cur n ur leafu leafo dv show ?thesis
        by (simp add: insert_bt_routes [OF cur] ic uniform_def payloads_def del: insert_bt.simps)
    next
      case (Node ln ll lr)
      with Node.IH(1) ul obtain l' where l': "insert_bt l d = Inr (True, l')" "l' \<noteq> Absent"
        "uniform ks (Some ix) l'" "mset (nodes l') = add_mset (leaf ix d) (mset (nodes l))"
        "ordered ks l \<longrightarrow> ordered ks l'"
        by auto
      have "set (nodes l') = insert (leaf ix d) (set (nodes l))"
        using arg_cong [OF l'(4), of set_mset] by simp
      with False c ks cur n ur l' Node dv show ?thesis
        by (auto simp: insert_bt_routes [OF cur] uniform_def payloads_def list_all_iff simp del: insert_bt.simps)
    qed
  qed
qed

lemma inOrder_nodes: "inOrder t type acc = acc @ map (item_of type) (nodes t)"
  by (induction t arbitrary: acc) simp_all

lemma sortAscIgnoreUndefined_antisym:
  "sortAscIgnoreUndefined b a = - sortAscIgnoreUndefined a b"
  using sortAsc_antisym [of a b] by (simp add: sortAscIgnoreUndefined_def)

lemma within_iff:
  "within from to v \<longleftrightarrow>
      (sortAscIgnoreUndefined v from = 0 \<or> sortAscIgnoreUndefined v from = 1)
      \<and> (sortAscIgnoreUndefined v to = 0 \<or> sortAscIgnoreUndefined v to = -1)"
  using sortAscIgnoreUndefined_antisym [of "from" v]
  by (auto simp: within_def natural_le_def)

lemma findRange_nodes:
  "findRange t type key from to acc =
     acc @ map (item_of type)
             (filter (\<lambda>n. within from to (path_value key (data_val n))) (nodes t))"
  by (induction t arbitrary: acc) (simp_all add: Let_def within_iff)

lemma lookup_acc: "lookup t d acc = acc @ lookup t d []"
proof (induction t arbitrary: acc)
  case Absent
  show ?case by simp
next
  case (Node n l r)
  show ?case
    using Node.IH(1) [of acc] Node.IH(2) [of "lookup l d [] @ [data_val n]"]
      Node.IH(2) [of "acc @ lookup l d [] @ [data_val n]"] Node.IH(2) [of acc]
    by (simp add: Let_def)
qed

lemma fresh_tree:
  "BinaryTree None (Some ix) pk =
     Inr (Node (fresh_node\<lparr>f_primaryKey := pk, f_index := Some ix, f_keys := parse ix\<rparr>) Absent Absent)"
  by (cases pk) (simp_all add: BinaryTree_def init_def Let_def fresh_node_def)

lemma first_insert:
  assumes "parse ix \<noteq> []"
  shows "insert_bt (Node (fresh_node\<lparr>f_primaryKey := pk, f_index := Some ix, f_keys := parse ix\<rparr>) Absent Absent) d
    = Inr (True, Node ((leaf ix d)\<lparr>f_primaryKey := pk\<rparr>) Absent Absent)"
  using assms
  by (cases "parse ix") (simp_all add: fresh_node_def data_set_def priv_hashFunc_def leaf_def)

lemma insert_arr_uniform:
  assumes ks: "parse ix = ks" "ks \<noteq> []"
  shows "t \<noteq> Absent \<Longrightarrow> uniform ks (Some ix) t \<Longrightarrow>
     \<exists>t'. insert_arr t ds ins fl = Inr ((ins @ ds, fl), t') \<and> t' \<noteq> Absent
        \<and> uniform ks (Some ix) t'
        \<and> mset (nodes t') = mset (map (leaf ix) ds) + mset (nodes t)
        \<and> (ordered ks t \<longrightarrow> ordered ks t')
        \<and> (case t of Node n l r \<Rightarrow> \<exists>l' r'. t' = Node n l' r')"
proof (induction ds arbitrary: t ins)
  case Nil
  then show ?case by (cases t) simp_all
next
  case (Cons d ds)
  from insert_bt_uniform [OF ks Cons.prems, of d]
  obtain t1 where t1: "insert_bt t d = Inr (True, t1)" "t1 \<noteq> Absent" "uniform ks (Some ix) t1"
    "mset (nodes t1) = add_mset (leaf ix d) (mset (nodes t))" "ordered ks t \<longrightarrow> ordered ks t1"
    "case t of Node n l r \<Rightarrow> \<exists>l' r'. t1 = Node n l' r'"
    by blast
  from Cons.IH [OF t1(2,3), of "ins @ [d]"]
  obtain t' where t': "insert_arr t1 ds (ins @ [d]) fl = Inr (((ins @ [d]) @ ds, fl), t')"
    "t' \<noteq> Absent" "uniform ks (Some ix) t'"
    "mset (nodes t') = mset (map (leaf ix) ds) + mset (nodes t1)"
    "ordered ks t1 \<longrightarrow> ordered ks t'"
    "case t1 of Node n l r \<Rightarrow> \<exists>l' r'. t' = Node n l' r'"
    by blast
  from t1 t' Cons.prems show ?case
    by (cases t) (auto simp del: insert_bt.simps)
qed


lemma parse_Nil_iff: "parse ix = [] \<longleftrightarrow> ix = []"
  by (simp add: parse_def)

lemma data_val_leaf: "data_val (leaf ix d) = JObj d" "data_val ((leaf ix d)\<lparr>f_primaryKey := pk\<rparr>) = JObj d"
  by (simp_all add: data_val_def leaf_def)

lemma build_uniform:
  assumes "ix \<noteq> []"
  shows "\<exists>l r. build ix pk (d # ds) = Inr ((d # ds, []), Node ((leaf ix d)\<lparr>f_primaryKey := pk\<rparr>) l r)
        \<and> uniform (parse ix) (Some ix) (Node ((leaf ix d)\<lparr>f_primaryKey := pk\<rparr>) l r)
        \<and> mset (nodes l @ nodes r) = mset (map (leaf ix) ds)
        \<and> ordered (parse ix) (Node ((leaf ix d)\<lparr>f_primaryKey := pk\<rparr>) l r)"
proof -
  let ?t1 = "Node ((leaf ix d)\<lparr>f_primaryKey := pk\<rparr>) Absent Absent"
  have ks: "parse ix = parse ix" "parse ix \<noteq> []"
    using assms by (simp_all add: parse_Nil_iff)
  have u: "uniform (parse ix) (Some ix) ?t1"
    by (simp add: uniform_def leaf_def)
  have o: "ordered (parse ix) ?t1"
    by (simp add: payloads_def)
  from insert_arr_uniform [OF ks _ u, of ds "[d]" "[]"] o
  obtain t' where t': "insert_arr ?t1 ds [d] [] = Inr (([d] @ ds, []), t')"
     "uniform (parse ix) (Some ix) t'"
     "mset (nodes t') = mset (map (leaf ix) ds) + mset (nodes ?t1)"
     "ordered (parse ix) t'" "\<exists>l' r'. t' = Node ((leaf ix d)\<lparr>f_primaryKey := pk\<rparr>) l' r'"
    by auto
  from t'(5) obtain l r where lr: "t' = Node ((leaf ix d)\<lparr>f_primaryKey := pk\<rparr>) l r"
    by blast
  have "build ix pk (d # ds) = Inr ((d # ds, []), t')"
    using t'(1) by (simp add: build_def fresh_tree first_insert [OF ks(2)] del: insert_bt.simps)
  with t' lr show ?thesis
    by auto
qed

lemma ordered_successively:
  "ordered ks t \<Longrightarrow> successively (\<lambda>x y. priv_compareFunc ks x y \<le> 0) (payloads t)"
proof (induction t)
  case Absent
  show ?case by (simp add: payloads_def)
next
  case (Node n l r)
  have l: "payloads l \<noteq> [] \<Longrightarrow> priv_compareFunc ks (last (payloads l)) (data_val n) \<le> 0"
  proof -
    assume "payloads l \<noteq> []"
    then have "last (payloads l) \<in> set (payloads l)" by simp
    with Node.prems have "priv_compareFunc ks (data_val n) (last (payloads l)) = 0
        \<or> priv_compareFunc ks (data_val n) (last (payloads l)) = 1"
      by (simp add: list_all_iff)
    with compareFunc_antisym [of ks "last (payloads l)" "data_val n"] show ?thesis by auto
  qed
  have r: "payloads r \<noteq> [] \<Longrightarrow> priv_compareFunc ks (data_val n) (hd (payloads r)) \<le> 0"
  proof -
    assume "payloads r \<noteq> []"
    then have "hd (payloads r) \<in> set (payloads r)" by simp
    with Node.prems show ?thesis by (simp add: list_all_iff)
  qed
  have "payloads (Node n l r) = payloads l @ data_val n # payloads r"
    by (simp add: payloads_def)
  with Node l r show ?case
    by (cases "payloads r") (auto simp: successively_append_iff)
qed

lemma inOrder_data: "inOrder t ''data'' [] = map Plain (payloads t)"
  by (simp add: inOrder_nodes payloads_def item_of_def)

lemma lookup_same_key:
  "ordered ks t \<Longrightarrow> uniform ks ixo t \<Longrightarrow>
   filter (\<lambda>v. same_key ks v (JObj q)) (lookup t q []) =
   filter (\<lambda>v. same_key ks v (JObj q)) (payloads t)"
proof (induction t)
  case Absent
  show ?case by (simp add: payloads_def)
next
  case (Node n l r)
  from Node.prems have k: "f_keys n = ks" and ul: "uniform ks ixo l" and ur: "uniform ks ixo r"
    and ol: "ordered ks l" and or: "ordered ks r"
    by (auto simp: uniform_def)
  note IH = Node.IH(1) [OF ol ul] Node.IH(2) [OF or ur]
  have p: "payloads (Node n l r) = payloads l @ data_val n # payloads r"
    by (simp add: payloads_def)
  let ?c = "priv_compareFunc ks (data_val n) (JObj q)"
  have same: "same_key ks v (JObj q) \<Longrightarrow> priv_compareFunc ks (data_val n) v = ?c" for v
    by (rule compareFunc_same_key)
  consider "?c = 0" | "?c = -1" | "?c = 1"
    using compareFunc_range [of ks "data_val n" "JObj q"] by blast
  then show ?case
  proof cases
    case 1
    then show ?thesis
      using IH lookup_acc [of r q "lookup l q [] @ [data_val n]"]
      by (simp add: k p Let_def)
  next
    case 2
    have "filter (\<lambda>v. same_key ks v (JObj q)) (payloads l) = []"
      using Node.prems(1) 2 same by (auto simp: filter_empty_conv list_all_iff)
    moreover have "\<not> same_key ks (data_val n) (JObj q)"
      using compareFunc_refl_key [of ks "data_val n" "JObj q"] 2 by auto
    ultimately show ?thesis
      using IH 2 by (simp add: k p Let_def)
  next
    case 3
    have "filter (\<lambda>v. same_key ks v (JObj q)) (payloads r) = []"
      using Node.prems(1) 3 same by (auto simp: filter_empty_conv list_all_iff)
    moreover have "\<not> same_key ks (data_val n) (JObj q)"
      using compareFunc_refl_key [of ks "data_val n" "JObj q"] 3 by auto
    ultimately show ?thesis
      using IH 3 by (simp add: k p Let_def)
  qed
qed

lemma lookup_all_equal:
  "uniform ks ixo t \<Longrightarrow> list_all (\<lambda>v. priv_compareFunc ks v (JObj q) = 0) (lookup t q [])"
proof (induction t)
  case Absent
  show ?case by simp
next
  case (Node n l r)
  from Node.prems have k: "f_keys n = ks" and ul: "uniform ks ixo l" and ur: "uniform ks ixo r"
    by (auto simp: uniform_def)
  note IH = Node.IH(1) [OF ul] Node.IH(2) [OF ur]
  show ?case
    using IH lookup_acc [of r q "lookup l q [] @ [data_val n]"]
    by (simp add: k Let_def)
qed

section \<open>Sortedness of the enumeration\<close>

lemma successively_sorted_wrt_on:
  assumes "\<And>x y z. x \<in> set xs \<Longrightarrow> y \<in> set xs \<Longrightarrow> z \<in> set xs \<Longrightarrow> R x y \<Longrightarrow> R y z \<Longrightarrow> R x z"
    and "successively R xs"
  shows "sorted_wrt R xs"
  using assms
proof (induction xs)
  case Nil
  show ?case by simp
next
  case (Cons x xs)
  show ?case
  proof (cases xs)
    case Nil
    then show ?thesis by simp
  next
    case c: (Cons y ys)
    from Cons.prems(2) c have xy: "R x y" and s: "successively R xs" by simp_all
    have sw: "sorted_wrt R xs"
    proof (rule Cons.IH)
      fix a b c
      assume "a \<in> set xs" "b \<in> set xs" "c \<in> set xs" "R a b" "R b c"
      then show "R a c" using Cons.prems(1) [of a b c] by simp
    next
      show "successively R xs" by (rule s)
    qed
    have "R x z" if z: "z \<in> set ys" for z
    proof -
      from sw c z have "R y z" by simp
      with xy show ?thesis
        using Cons.prems(1) [of x y z] c z by simp
    qed
    with xy sw c show ?thesis by simp
  qed
qed

lemma build_facts:
  assumes "ix \<noteq> []"
  shows "returned (build ix pk (d # ds)) = Some (d # ds, [])"
    and "tree_after (build ix pk (d # ds)) \<noteq> Absent"
    and "uniform (parse ix) (Some ix) (tree_after (build ix pk (d # ds)))"
    and "ordered (parse ix) (tree_after (build ix pk (d # ds)))"
    and "mset (payloads (tree_after (build ix pk (d # ds)))) = mset (map JObj (d # ds))"
proof -
  from build_uniform [OF assms, of pk d ds] obtain l r where
    b: "build ix pk (d # ds) = Inr ((d # ds, []), Node ((leaf ix d)\<lparr>f_primaryKey := pk\<rparr>) l r)"
    and u: "uniform (parse ix) (Some ix) (Node ((leaf ix d)\<lparr>f_primaryKey := pk\<rparr>) l r)"
    and m: "mset (nodes l @ nodes r) = mset (map (leaf ix) ds)"
    and o: "ordered (parse ix) (Node ((leaf ix d)\<lparr>f_primaryKey := pk\<rparr>) l r)"
    by blast
  from b show "returned (build ix pk (d # ds)) = Some (d # ds, [])"
    by (simp add: returned_def)
  from b show "tree_after (build ix pk (d # ds)) \<noteq> Absent"
    by (simp add: tree_after_def)
  from b u show "uniform (parse ix) (Some ix) (tree_after (build ix pk (d # ds)))"
    by (simp add: tree_after_def)
  from b o show "ordered (parse ix) (tree_after (build ix pk (d # ds)))"
    by (simp add: tree_after_def)
  have "image_mset data_val (mset (nodes l @ nodes r)) = image_mset data_val (mset (map (leaf ix) ds))"
    using m by simp
  then have "mset (map data_val (nodes l)) + mset (map data_val (nodes r)) = mset (map JObj ds)"
    by (simp add: multiset.map_comp comp_def data_val_leaf)
  with b show "mset (payloads (tree_after (build ix pk (d # ds)))) = mset (map JObj (d # ds))"
    by (simp add: tree_after_def payloads_def data_val_leaf)
qed



text \<open>
  C2. For a non-empty index, inserting the documents \<open>d # ds\<close> in this order into an
  empty tree succeeds for each of them; \<open>inOrder('data')\<close> then returns exactly the
  inserted documents, each as often as it was inserted, and each returned document is
  not greater than the next one under the compound comparator. When the comparator is
  transitive on the inserted documents, every returned document is not greater than
  every later one. The keys need not be distinct. With the index
  \<open>{a: 1, b: -1}\<close>, inserting \<open>{a:1,b:2}\<close>, \<open>{a:1,b:1}\<close>, \<open>{a:2,b:5}\<close>
  yields them in this order.
\<close>

theorem inOrder_sorted_after_inserts:
  "(ix \<noteq> [] \<longrightarrow>
      returned (build ix pk (d # ds)) = Some (d # ds, [])
    \<and> mset (inOrder (tree_after (build ix pk (d # ds))) ''data'' [])
        = mset (map (\<lambda>x. Plain (JObj x)) (d # ds))
    \<and> successively (\<lambda>x y. priv_compareFunc (parse ix) (item_val x) (item_val y) \<le> 0)
        (inOrder (tree_after (build ix pk (d # ds))) ''data'' [])
    \<and> ((\<forall>x \<in> set (d # ds). \<forall>y \<in> set (d # ds). \<forall>z \<in> set (d # ds).
           priv_compareFunc (parse ix) (JObj x) (JObj y) \<le> 0
           \<and> priv_compareFunc (parse ix) (JObj y) (JObj z) \<le> 0
           \<longrightarrow> priv_compareFunc (parse ix) (JObj x) (JObj z) \<le> 0)
        \<longrightarrow> sorted_wrt (\<lambda>x y. priv_compareFunc (parse ix) (item_val x) (item_val y) \<le> 0)
              (inOrder (tree_after (build ix pk (d # ds))) ''data'' [])))
   \<and> inOrder (tree_after (build [(''a'', 1), (''b'', -1)] None
        [[(''a'', JNum 1), (''b'', JNum 2)], [(''a'', JNum 1), (''b'', JNum 1)],
         [(''a'', JNum 2), (''b'', JNum 5)]])) ''data'' [] =
      [Plain (JObj [(''a'', JNum 1), (''b'', JNum 2)]),
       Plain (JObj [(''a'', JNum 1), (''b'', JNum 1)]),
       Plain (JObj [(''a'', JNum 2), (''b'', JNum 5)])]"
proof (intro conjI impI)
  assume ix: "ix \<noteq> []"
  let ?t = "tree_after (build ix pk (d # ds))"
  let ?R = "\<lambda>x y. priv_compareFunc (parse ix) (item_val x) (item_val y) \<le> 0"
  note bf = build_facts [OF ix, of pk d ds]
  show "returned (build ix pk (d # ds)) = Some (d # ds, [])" by (rule bf(1))
  have io: "inOrder ?t ''data'' [] = map Plain (payloads ?t)" by (rule inOrder_data)
  have "mset (map Plain (payloads ?t)) = image_mset Plain (mset (map JObj (d # ds)))"
    using arg_cong [OF bf(5), of "image_mset Plain"] by simp
  then show m: "mset (inOrder ?t ''data'' []) = mset (map (\<lambda>x. Plain (JObj x)) (d # ds))"
    by (simp add: io multiset.map_comp comp_def)
  show s: "successively ?R (inOrder ?t ''data'' [])"
    using ordered_successively [OF bf(4)]
    by (simp add: io successively_map item_val_def)
  assume tr: "\<forall>x \<in> set (d # ds). \<forall>y \<in> set (d # ds). \<forall>z \<in> set (d # ds).
           priv_compareFunc (parse ix) (JObj x) (JObj y) \<le> 0
           \<and> priv_compareFunc (parse ix) (JObj y) (JObj z) \<le> 0
           \<longrightarrow> priv_compareFunc (parse ix) (JObj x) (JObj z) \<le> 0"
  have st: "set (inOrder ?t ''data'' []) = (\<lambda>x. Plain (JObj x)) ` set (d # ds)"
    using mset_eq_setD [OF m] unfolding set_map .
  show "sorted_wrt ?R (inOrder ?t ''data'' [])"
  proof (rule successively_sorted_wrt_on [OF _ s])
    fix x y z
    assume mem: "x \<in> set (inOrder ?t ''data'' [])" "y \<in> set (inOrder ?t ''data'' [])"
      "z \<in> set (inOrder ?t ''data'' [])" and r: "?R x y" "?R y z"
    from mem(1) obtain a where a: "a \<in> set (d # ds)" "x = Plain (JObj a)"
      unfolding st by (rule imageE)
    from mem(2) obtain b where b: "b \<in> set (d # ds)" "y = Plain (JObj b)"
      unfolding st by (rule imageE)
    from mem(3) obtain c where c: "c \<in> set (d # ds)" "z = Plain (JObj c)"
      unfolding st by (rule imageE)
    note bspec [OF bspec [OF bspec [OF tr a(1)] b(1)] c(1)]
    with r show "?R x z"
      unfolding a(2) b(2) c(2) item_val_def by simp
  qed
next
  show "inOrder (tree_after (build [(''a'', 1), (''b'', -1)] None
        [[(''a'', JNum 1), (''b'', JNum 2)], [(''a'', JNum 1), (''b'', JNum 1)],
         [(''a'', JNum 2), (''b'', JNum 5)]])) ''data'' [] =
      [Plain (JObj [(''a'', JNum 1), (''b'', JNum 2)]),
       Plain (JObj [(''a'', JNum 1), (''b'', JNum 1)]),
       Plain (JObj [(''a'', JNum 2), (''b'', JNum 5)])]"
    by code_simp
qed

theorem inOrder_sorted_after_inserts_witness:
  "[(''a'', 1::int)] \<noteq> []
   \<and> returned (build [(''a'', 1)] None [[(''a'', JNum 2)], [(''a'', JNum 1)], [(''a'', JNum 3)]])
       = Some ([[(''a'', JNum 2)], [(''a'', JNum 1)], [(''a'', JNum 3)]], [])
   \<and> successively (\<lambda>x y. priv_compareFunc (parse [(''a'', 1)]) (item_val x) (item_val y) \<le> 0)
        (inOrder (tree_after (build [(''a'', 1)] None
            [[(''a'', JNum 2)], [(''a'', JNum 1)], [(''a'', JNum 3)]])) ''data'' [])
   \<and> sorted_wrt (\<lambda>x y. priv_compareFunc (parse [(''a'', 1)]) (item_val x) (item_val y) \<le> 0)
        (inOrder (tree_after (build [(''a'', 1)] None
            [[(''a'', JNum 2)], [(''a'', JNum 1)], [(''a'', JNum 3)]])) ''data'' [])
   \<and> inOrder (tree_after (build [(''a'', 1)] None
            [[(''a'', JNum 2)], [(''a'', JNum 1)], [(''a'', JNum 3)]])) ''data'' []
       = [Plain (JObj [(''a'', JNum 1)]), Plain (JObj [(''a'', JNum 2)]), Plain (JObj [(''a'', JNum 3)])]"
proof -
  have e: "inOrder (tree_after (build [(''a'', 1)] None
            [[(''a'', JNum 2)], [(''a'', JNum 1)], [(''a'', JNum 3)]])) ''data'' []
       = [Plain (JObj [(''a'', JNum 1)]), Plain (JObj [(''a'', JNum 2)]), Plain (JObj [(''a'', JNum 3)])]"
    by code_simp
  have ix: "[(''a'', 1::int)] \<noteq> []" by simp
  have tr: "\<forall>x \<in> set [[(''a'', JNum 2)], [(''a'', JNum 1)], [(''a'', JNum 3)]].
       \<forall>y \<in> set [[(''a'', JNum 2)], [(''a'', JNum 1)], [(''a'', JNum 3)]].
       \<forall>z \<in> set [[(''a'', JNum 2)], [(''a'', JNum 1)], [(''a'', JNum 3)]].
           priv_compareFunc (parse [(''a'', 1)]) (JObj x) (JObj y) \<le> 0
           \<and> priv_compareFunc (parse [(''a'', 1)]) (JObj y) (JObj z) \<le> 0
           \<longrightarrow> priv_compareFunc (parse [(''a'', 1)]) (JObj x) (JObj z) \<le> 0"
    by code_simp
  note t = inOrder_sorted_after_inserts [of "[(''a'', 1)]" None "[(''a'', JNum 2)]"
      "[[(''a'', JNum 1)], [(''a'', JNum 3)]]"]
  from t ix have r: "returned (build [(''a'', 1)] None
        [[(''a'', JNum 2)], [(''a'', JNum 1)], [(''a'', JNum 3)]])
       = Some ([[(''a'', JNum 2)], [(''a'', JNum 1)], [(''a'', JNum 3)]], [])"
    by blast
  from t ix have s: "successively
        (\<lambda>x y. priv_compareFunc (parse [(''a'', 1)]) (item_val x) (item_val y) \<le> 0)
        (inOrder (tree_after (build [(''a'', 1)] None
            [[(''a'', JNum 2)], [(''a'', JNum 1)], [(''a'', JNum 3)]])) ''data'' [])"
    by blast
  from t ix tr have sw: "sorted_wrt
        (\<lambda>x y. priv_compareFunc (parse [(''a'', 1)]) (item_val x) (item_val y) \<le> 0)
        (inOrder (tree_after (build [(''a'', 1)] None
            [[(''a'', JNum 2)], [(''a'', JNum 1)], [(''a'', JNum 3)]])) ''data'' [])"
    by blast
  from ix r s sw e show ?thesis by blast
qed

section \<open>Routing and duplicate keys\<close>

lemma count_list_filter_same:
  "P v \<Longrightarrow> count_list (filter P xs) v = count_list xs v"
  by (induction xs) auto

lemma count_list_map_inj:
  "inj f \<Longrightarrow> count_list (map f xs) (f x) = count_list xs x"
  by (induction xs) (auto simp: inj_def)

lemma count_list_payloads:
  assumes ix: "ix \<noteq> []"
  shows "count_list (payloads (tree_after (build ix pk (d # ds)))) (JObj x) = count_list (d # ds) x"
proof -
  have "count_list (payloads (tree_after (build ix pk (d # ds)))) (JObj x)
        = count_list (map JObj (d # ds)) (JObj x)"
    using arg_cong [OF build_facts(5) [OF ix, of pk d ds], of "\<lambda>m. count m (JObj x)"]
    by (simp only: count_mset)
  also have "\<dots> = count_list (d # ds) x"
    by (rule count_list_map_inj) (simp add: inj_def)
  finally show ?thesis .
qed

lemma lookup_count:
  assumes ix: "ix \<noteq> []" and sk: "same_key (parse ix) (JObj x) (JObj q)"
  shows "count_list (lookup (tree_after (build ix pk (d # ds))) q []) (JObj x)
           = count_list (d # ds) x"
proof -
  let ?t = "tree_after (build ix pk (d # ds))"
  let ?P = "\<lambda>v. same_key (parse ix) v (JObj q)"
  note bf = build_facts [OF ix, of pk d ds]
  have "count_list (lookup ?t q []) (JObj x) = count_list (filter ?P (lookup ?t q [])) (JObj x)"
    using sk by (simp add: count_list_filter_same)
  also have "\<dots> = count_list (filter ?P (payloads ?t)) (JObj x)"
    by (simp only: lookup_same_key [OF bf(4) bf(3)])
  also have "\<dots> = count_list (payloads ?t) (JObj x)"
    using sk by (simp add: count_list_filter_same)
  also have "\<dots> = count_list (d # ds) x"
    by (rule count_list_payloads [OF ix])
  finally show ?thesis .
qed

text \<open>
  C3. On a node that holds a payload, \<open>insert\<close> of a single document goes by the
  comparator's answer for the payload and the document: on \<open>0\<close> or \<open>1\<close> to the left
  branch, on \<open>-1\<close> to the right branch, recursing into the child there when it exists
  and constructing a new node for the document otherwise. So a tree built by
  insertion under a non-empty index keeps every inserted document, as often as it was
  inserted, and \<open>lookup\<close> with a document of the same compound key returns each of them
  that often: two documents with identical keys are both kept and both returned.
\<close>

theorem insert_routes_by_comparison:
  "(f_data n = Some cur \<longrightarrow>
      (priv_compareFunc (f_keys n) (JObj cur) (JObj d) = 0
         \<or> priv_compareFunc (f_keys n) (JObj cur) (JObj d) = 1 \<longrightarrow>
       insert_bt (Node n l r) d =
         (case l of
            Absent \<Rightarrow> (case insert_child n d of
                         Inl e \<Rightarrow> Inl e | Inr c \<Rightarrow> Inr (True, Node n c r))
          | Node _ _ _ \<Rightarrow> (case insert_bt l d of
                             Inl e \<Rightarrow> Inl e | Inr (_, l') \<Rightarrow> Inr (True, Node n l' r))))
    \<and> (priv_compareFunc (f_keys n) (JObj cur) (JObj d) = -1 \<longrightarrow>
       insert_bt (Node n l r) d =
         (case r of
            Absent \<Rightarrow> (case insert_child n d of
                         Inl e \<Rightarrow> Inl e | Inr c \<Rightarrow> Inr (True, Node n l c))
          | Node _ _ _ \<Rightarrow> (case insert_bt r d of
                             Inl e \<Rightarrow> Inl e | Inr (_, r') \<Rightarrow> Inr (True, Node n l r')))))
   \<and> (ix \<noteq> [] \<longrightarrow> insert_child (leaf ix x) d = Inr (Node (leaf ix d) Absent Absent))
   \<and> (ix \<noteq> [] \<and> same_key (parse ix) (JObj x) (JObj q) \<longrightarrow>
        count_list (inOrder (tree_after (build ix pk (d # ds))) ''data'' []) (Plain (JObj x))
          = count_list (d # ds) x
      \<and> count_list (lookup (tree_after (build ix pk (d # ds))) q []) (JObj x)
          = count_list (d # ds) x)"
proof (intro conjI impI)
  assume "f_data n = Some cur"
  note r = insert_bt_routes [OF this, of l r d]
  { assume "priv_compareFunc (f_keys n) (JObj cur) (JObj d) = 0
         \<or> priv_compareFunc (f_keys n) (JObj cur) (JObj d) = 1"
    then have "priv_compareFunc (f_keys n) (JObj cur) (JObj d) \<noteq> -1" by auto
    then show "insert_bt (Node n l r) d =
         (case l of
            Absent \<Rightarrow> (case insert_child n d of
                         Inl e \<Rightarrow> Inl e | Inr c \<Rightarrow> Inr (True, Node n c r))
          | Node _ _ _ \<Rightarrow> (case insert_bt l d of
                             Inl e \<Rightarrow> Inl e | Inr (_, l') \<Rightarrow> Inr (True, Node n l' r)))"
      by (simp add: r del: insert_bt.simps) }
  { assume "priv_compareFunc (f_keys n) (JObj cur) (JObj d) = -1"
    then show "insert_bt (Node n l r) d =
         (case r of
            Absent \<Rightarrow> (case insert_child n d of
                         Inl e \<Rightarrow> Inl e | Inr c \<Rightarrow> Inr (True, Node n l c))
          | Node _ _ _ \<Rightarrow> (case insert_bt r d of
                             Inl e \<Rightarrow> Inl e | Inr (_, r') \<Rightarrow> Inr (True, Node n l r')))"
      by (simp add: r del: insert_bt.simps) }
next
  assume "ix \<noteq> []"
  then show "insert_child (leaf ix x) d = Inr (Node (leaf ix d) Absent Absent)"
    by (intro insert_child_leaf) (simp_all add: leaf_def parse_Nil_iff)
next
  assume a: "ix \<noteq> [] \<and> same_key (parse ix) (JObj x) (JObj q)"
  then have ix: "ix \<noteq> []" and sk: "same_key (parse ix) (JObj x) (JObj q)" by simp_all
  show "count_list (lookup (tree_after (build ix pk (d # ds))) q []) (JObj x)
          = count_list (d # ds) x"
    by (rule lookup_count [OF ix sk])
  have "count_list (map Plain (payloads (tree_after (build ix pk (d # ds))))) (Plain (JObj x))
        = count_list (payloads (tree_after (build ix pk (d # ds)))) (JObj x)"
    by (rule count_list_map_inj) (simp add: inj_def)
  then show "count_list (inOrder (tree_after (build ix pk (d # ds))) ''data'' []) (Plain (JObj x))
          = count_list (d # ds) x"
    by (simp only: inOrder_data count_list_payloads [OF ix])
qed


theorem insert_routes_by_comparison_witness:
  "f_data (leaf [(''a'', 1)] [(''a'', JNum 1), (''id'', JNum 1)])
      = Some [(''a'', JNum 1), (''id'', JNum 1)]
   \<and> priv_compareFunc (f_keys (leaf [(''a'', 1)] [(''a'', JNum 1), (''id'', JNum 1)]))
        (JObj [(''a'', JNum 1), (''id'', JNum 1)]) (JObj [(''a'', JNum 1), (''id'', JNum 2)]) = 0
   \<and> insert_bt (Node (leaf [(''a'', 1)] [(''a'', JNum 1), (''id'', JNum 1)]) Absent Absent)
        [(''a'', JNum 1), (''id'', JNum 2)]
       = Inr (True, Node (leaf [(''a'', 1)] [(''a'', JNum 1), (''id'', JNum 1)])
                      (Node (leaf [(''a'', 1)] [(''a'', JNum 1), (''id'', JNum 2)]) Absent Absent)
                      Absent)
   \<and> [(''a'', 1::int)] \<noteq> []
   \<and> same_key (parse [(''a'', 1)]) (JObj [(''a'', JNum 1), (''id'', JNum 1)]) (JObj [(''a'', JNum 1)])
   \<and> count_list (lookup (tree_after (build [(''a'', 1)] None
          [[(''a'', JNum 1), (''id'', JNum 2)], [(''a'', JNum 1), (''id'', JNum 1)]]))
          [(''a'', JNum 1)] []) (JObj [(''a'', JNum 1), (''id'', JNum 1)]) = 1
   \<and> lookup (tree_after (build [(''a'', 1)] None
          [[(''a'', JNum 1), (''id'', JNum 2)], [(''a'', JNum 1), (''id'', JNum 1)]]))
          [(''a'', JNum 1)] []
       = [JObj [(''a'', JNum 1), (''id'', JNum 1)], JObj [(''a'', JNum 1), (''id'', JNum 2)]]"
proof -
  have h1: "f_data (leaf [(''a'', 1)] [(''a'', JNum 1), (''id'', JNum 1)])
      = Some [(''a'', JNum 1), (''id'', JNum 1)]"
    by (simp add: leaf_def)
  have h2: "priv_compareFunc (f_keys (leaf [(''a'', 1)] [(''a'', JNum 1), (''id'', JNum 1)]))
        (JObj [(''a'', JNum 1), (''id'', JNum 1)]) (JObj [(''a'', JNum 1), (''id'', JNum 2)]) = 0"
    by code_simp
  have h3: "same_key (parse [(''a'', 1)]) (JObj [(''a'', JNum 1), (''id'', JNum 1)]) (JObj [(''a'', JNum 1)])"
    by code_simp
  have e: "lookup (tree_after (build [(''a'', 1)] None
          [[(''a'', JNum 1), (''id'', JNum 2)], [(''a'', JNum 1), (''id'', JNum 1)]]))
          [(''a'', JNum 1)] []
       = [JObj [(''a'', JNum 1), (''id'', JNum 1)], JObj [(''a'', JNum 1), (''id'', JNum 2)]]"
    by code_simp
  note t = insert_routes_by_comparison [of "leaf [(''a'', 1)] [(''a'', JNum 1), (''id'', JNum 1)]"
      "[(''a'', JNum 1), (''id'', JNum 1)]" "[(''a'', JNum 1), (''id'', JNum 2)]" Absent Absent
      "[(''a'', 1)]" "[(''a'', JNum 1), (''id'', JNum 1)]" "[(''a'', JNum 1)]" None
      "[[(''a'', JNum 1), (''id'', JNum 2)]]"]
  have ic: "insert_child (leaf [(''a'', 1)] [(''a'', JNum 1), (''id'', JNum 1)])
            [(''a'', JNum 1), (''id'', JNum 2)]
        = Inr (Node (leaf [(''a'', 1)] [(''a'', JNum 1), (''id'', JNum 2)]) Absent Absent)"
    using t by simp
  have ins: "insert_bt (Node (leaf [(''a'', 1)] [(''a'', JNum 1), (''id'', JNum 1)]) Absent Absent)
        [(''a'', JNum 1), (''id'', JNum 2)]
       = Inr (True, Node (leaf [(''a'', 1)] [(''a'', JNum 1), (''id'', JNum 1)])
                      (Node (leaf [(''a'', 1)] [(''a'', JNum 1), (''id'', JNum 2)]) Absent Absent)
                      Absent)"
    using t h1 h2 ic by (simp del: insert_bt.simps)
  show ?thesis
    using h1 h2 h3 e ins by (simp del: insert_bt.simps)
qed

section \<open>Range scan\<close>

text \<open>
  C9. On any tree, whatever its shape, \<open>findRange\<close> goes through all nodes from left
  to right and collects, in the form the mode asks for, those whose resolved field value
  \<open>v\<close> satisfies \<open>from <= v <= to\<close>: in mode \<open>data\<close> its result is the result of
  \<open>inOrder\<close> filtered by the bounds, and on a tree built by inserting documents under a
  non-empty index it holds the same documents as the linear filter of the inserted ones.
\<close>

theorem findRange_is_linear_filter:
  "findRange t type key from to [] =
     map (item_of type) (filter (\<lambda>n. within from to (path_value key (data_val n))) (nodes t))
   \<and> findRange t ''data'' key from to [] =
     filter (\<lambda>it. within from to (path_value key (item_val it))) (inOrder t ''data'' [])
   \<and> (ix \<noteq> [] \<longrightarrow>
        mset (findRange (tree_after (build ix pk (d # ds))) ''data'' key from to [])
        = mset (map (\<lambda>x. Plain (JObj x))
                 (filter (\<lambda>x. within from to (path_value key (JObj x))) (d # ds))))"
proof (intro conjI impI)
  show "findRange t type key from to [] =
     map (item_of type) (filter (\<lambda>n. within from to (path_value key (data_val n))) (nodes t))"
    by (simp add: findRange_nodes)
  show fd: "findRange t ''data'' key from to [] =
     filter (\<lambda>it. within from to (path_value key (item_val it))) (inOrder t ''data'' [])" for t
    by (simp add: findRange_nodes inOrder_nodes filter_map comp_def item_of_def item_val_def)
  assume ix: "ix \<noteq> []"
  let ?t = "tree_after (build ix pk (d # ds))"
  let ?P = "\<lambda>it. within from to (path_value key (item_val it))"
  have "mset (inOrder ?t ''data'' []) = mset (map (\<lambda>x. Plain (JObj x)) (d # ds))"
    using arg_cong [OF build_facts(5) [OF ix, of pk d ds], of "image_mset Plain"]
    by (simp add: inOrder_data multiset.map_comp comp_def)
  then have "mset (filter ?P (inOrder ?t ''data'' []))
           = mset (filter ?P (map (\<lambda>x. Plain (JObj x)) (d # ds)))"
    by (simp only: mset_filter)
  then show "mset (findRange ?t ''data'' key from to [])
        = mset (map (\<lambda>x. Plain (JObj x))
                 (filter (\<lambda>x. within from to (path_value key (JObj x))) (d # ds)))"
    by (simp only: fd filter_map comp_def item_val_def item.case)
qed

theorem findRange_is_linear_filter_witness:
  "[(''a'', 1::int)] \<noteq> []
   \<and> findRange (tree_after (build [(''a'', 1)] None
        [[(''a'', JNum 5), (''n'', JNum 2)], [(''a'', JNum 1), (''n'', JNum 9)],
         [(''a'', JNum 7), (''n'', JNum 3)], [(''a'', JNum 6)]]))
        ''data'' ''n'' (JNum 2) (JNum 3) []
      = [Plain (JObj [(''a'', JNum 5), (''n'', JNum 2)]), Plain (JObj [(''a'', JNum 7), (''n'', JNum 3)])]
   \<and> mset [Plain (JObj [(''a'', JNum 5), (''n'', JNum 2)]), Plain (JObj [(''a'', JNum 7), (''n'', JNum 3)])]
      = mset (map (\<lambda>x. Plain (JObj x))
          (filter (\<lambda>x. within (JNum 2) (JNum 3) (path_value ''n'' (JObj x)))
             [[(''a'', JNum 5), (''n'', JNum 2)], [(''a'', JNum 1), (''n'', JNum 9)],
              [(''a'', JNum 7), (''n'', JNum 3)], [(''a'', JNum 6)]]))"
proof -
  have e: "findRange (tree_after (build [(''a'', 1)] None
        [[(''a'', JNum 5), (''n'', JNum 2)], [(''a'', JNum 1), (''n'', JNum 9)],
         [(''a'', JNum 7), (''n'', JNum 3)], [(''a'', JNum 6)]]))
        ''data'' ''n'' (JNum 2) (JNum 3) []
      = [Plain (JObj [(''a'', JNum 5), (''n'', JNum 2)]), Plain (JObj [(''a'', JNum 7), (''n'', JNum 3)])]"
    by code_simp
  from findRange_is_linear_filter [of _ _ "''n''" "JNum 2" "JNum 3" "[(''a'', 1)]" None
      "[(''a'', JNum 5), (''n'', JNum 2)]"
      "[[(''a'', JNum 1), (''n'', JNum 9)], [(''a'', JNum 7), (''n'', JNum 3)], [(''a'', JNum 6)]]"]
  have "mset (findRange (tree_after (build [(''a'', 1)] None
        [[(''a'', JNum 5), (''n'', JNum 2)], [(''a'', JNum 1), (''n'', JNum 9)],
         [(''a'', JNum 7), (''n'', JNum 3)], [(''a'', JNum 6)]]))
        ''data'' ''n'' (JNum 2) (JNum 3) [])
      = mset (map (\<lambda>x. Plain (JObj x))
          (filter (\<lambda>x. within (JNum 2) (JNum 3) (path_value ''n'' (JObj x)))
             [[(''a'', JNum 5), (''n'', JNum 2)], [(''a'', JNum 1), (''n'', JNum 9)],
              [(''a'', JNum 7), (''n'', JNum 3)], [(''a'', JNum 6)]]))"
    by blast
  with e show ?thesis by (simp only: list.simps simp_thms)
qed

section \<open>Prefix search\<close>

lemma take_mono_le: "(s::string) \<le> t \<Longrightarrow> take k s \<le> take k t"
proof (induction k arbitrary: s t)
  case 0
  show ?case by simp
next
  case (Suc k)
  show ?case
  proof (cases s)
    case Nil
    then show ?thesis by simp
  next
    case s: (Cons a s')
    show ?thesis
    proof (cases t)
      case Nil
      with Suc.prems s show ?thesis by simp
    next
      case t: (Cons b t')
      from Suc.prems s t have "a < b \<or> a = b \<and> s' \<le> t'" by simp
      then show ?thesis
        using Suc.IH [of s' t'] s t by auto
    qed
  qed
qed

lemma prefix_take: "prefix v s \<longleftrightarrow> take (length v) s = v"
  by (metis prefix_def append_eq_conv_conj take_is_prefix)

lemma sortAsc_str_le:
  "sortAscIgnoreUndefined (JStr a) (JStr b) = 0 \<or> sortAscIgnoreUndefined (JStr a) (JStr b) = 1
     \<Longrightarrow> b \<le> a"
  by (auto simp: sortAscIgnoreUndefined_def split: if_splits)

lemma sortAsc_str_ge:
  "sortAscIgnoreUndefined (JStr a) (JStr b) = 0 \<or> sortAscIgnoreUndefined (JStr a) (JStr b) = -1
     \<Longrightarrow> a \<le> b"
  by (auto simp: sortAscIgnoreUndefined_def split: if_splits)

lemma leading_key_left:
  assumes "priv_compareFunc (IndexData p 1 # ks) x y = 0 \<or> priv_compareFunc (IndexData p 1 # ks) x y = 1"
    and "get x p = JStr a" "get y p = JStr b"
  shows "b \<le> a"
proof -
  have "field_compare (IndexData p 1) x y = sortAscIgnoreUndefined (JStr a) (JStr b)"
    using assms(2,3) by (simp add: field_compare_def)
  with assms(1) compareFunc_range [of ks x y]
  have "sortAscIgnoreUndefined (JStr a) (JStr b) = 0 \<or> sortAscIgnoreUndefined (JStr a) (JStr b) = 1"
    by (auto simp: compareFunc_Cons split: if_splits)
  then show ?thesis by (rule sortAsc_str_le)
qed

lemma leading_key_right:
  assumes "priv_compareFunc (IndexData p 1 # ks) x y = -1"
    and "get x p = JStr a" "get y p = JStr b"
  shows "a \<le> b"
proof -
  have "field_compare (IndexData p 1) x y = sortAscIgnoreUndefined (JStr a) (JStr b)"
    using assms(2,3) by (simp add: field_compare_def)
  with assms(1) field_compare_range [of "IndexData p 1" x y]
  have "sortAscIgnoreUndefined (JStr a) (JStr b) = 0 \<or> sortAscIgnoreUndefined (JStr a) (JStr b) = -1"
    by (auto simp: compareFunc_Cons split: if_splits)
  then show ?thesis by (rule sortAsc_str_ge)
qed


lemma has_prefix_str: "get x p = JStr s \<Longrightarrow> has_prefix p v x \<longleftrightarrow> take (length v) s = v"
  by (simp add: has_prefix_def prefix_take)

lemma is_string_obtain: "is_string x \<Longrightarrow> \<exists>s. x = JStr s"
  by (cases x) (simp_all add: is_string_def)

lemma no_prefix_below:
  assumes "list_all (\<lambda>x. is_string (get x p)) xs"
    and "\<And>x sx. x \<in> set xs \<Longrightarrow> get x p = JStr sx \<Longrightarrow> sx \<le> s"
    and "take (length v) s < v"
  shows "filter (has_prefix p v) xs = []"
proof -
  have "\<not> has_prefix p v x" if x: "x \<in> set xs" for x
  proof -
    from assms(1) x obtain sx where sx: "get x p = JStr sx"
      using is_string_obtain by (auto simp: list_all_iff)
    from assms(2) [OF x sx] have "take (length v) sx \<le> take (length v) s"
      by (rule take_mono_le)
    with assms(3) have "take (length v) sx \<noteq> v" by auto
    then show ?thesis by (simp add: has_prefix_str [OF sx])
  qed
  then show ?thesis by (simp add: filter_empty_conv)
qed

lemma no_prefix_above:
  assumes "list_all (\<lambda>x. is_string (get x p)) xs"
    and "\<And>x sx. x \<in> set xs \<Longrightarrow> get x p = JStr sx \<Longrightarrow> s \<le> sx"
    and "v < take (length v) s"
  shows "filter (has_prefix p v) xs = []"
proof -
  have "\<not> has_prefix p v x" if x: "x \<in> set xs" for x
  proof -
    from assms(1) x obtain sx where sx: "get x p = JStr sx"
      using is_string_obtain by (auto simp: list_all_iff)
    from assms(2) [OF x sx] have "take (length v) s \<le> take (length v) sx"
      by (rule take_mono_le)
    with assms(3) have "take (length v) sx \<noteq> v" by auto
    then show ?thesis by (simp add: has_prefix_str [OF sx])
  qed
  then show ?thesis by (simp add: filter_empty_conv)
qed

lemma startsWith_step:
  assumes "get (data_val n) p = JStr s"
  shows "startsWith (Node n l r) p v acc =
    (let a = acc\<lparr>visitedCount := Suc (visitedCount acc),
                  visitedNodes := visitedNodes acc @ [JStr s]\<rparr>
     in if take (length v) s = v
        then (case startsWith l p v a of
                Inl e \<Rightarrow> Inl e
              | Inr a' \<Rightarrow> startsWith r p v (a'\<lparr>items := items a' @ [data_val n]\<rparr>))
        else if take (length v) s < v then startsWith r p v a
        else startsWith l p v a)"
  using assms
  by (auto simp: Let_def sortAscIgnoreUndefined_def push_if_def split: sum.splits)

lemma startsWith_ordered:
  assumes "ordered (IndexData p 1 # ks) t" "list_all (\<lambda>x. is_string (get x p)) (payloads t)"
  shows "\<exists>a'. startsWith t p v acc = Inr a'
           \<and> items a' = items acc @ filter (has_prefix p v) (payloads t)"
  using assms
proof (induction t arbitrary: acc)
  case Absent
  show ?case by (simp add: payloads_def)
next
  case (Node n l r)
  let ?ks = "IndexData p 1 # ks"
  have p: "payloads (Node n l r) = payloads l @ data_val n # payloads r"
    by (simp add: payloads_def)
  from Node.prems(2) have sl: "list_all (\<lambda>x. is_string (get x p)) (payloads l)"
    and sr: "list_all (\<lambda>x. is_string (get x p)) (payloads r)"
    and sn: "is_string (get (data_val n) p)"
    by (simp_all add: p)
  from sn obtain s where s: "get (data_val n) p = JStr s"
    using is_string_obtain by blast
  from Node.prems(1) have ol: "ordered ?ks l" and or: "ordered ?ks r"
    and ll: "list_all (\<lambda>x. priv_compareFunc ?ks (data_val n) x = 0
                  \<or> priv_compareFunc ?ks (data_val n) x = 1) (payloads l)"
    and rr: "list_all (\<lambda>x. priv_compareFunc ?ks (data_val n) x = -1) (payloads r)"
    by simp_all
  note IHl = Node.IH(1) [OF ol sl]
  note IHr = Node.IH(2) [OF or sr]
  let ?a = "acc\<lparr>visitedCount := Suc (visitedCount acc),
                  visitedNodes := visitedNodes acc @ [JStr s]\<rparr>"
  note step = startsWith_step [OF s, of l r v acc]
  consider (eq) "take (length v) s = v" | (lt) "take (length v) s < v" | (gt) "v < take (length v) s"
    by (metis linorder_neqE)
  then show ?case
  proof cases
    case eq
    from IHl [of ?a] obtain a1 where a1: "startsWith l p v ?a = Inr a1"
      "items a1 = items ?a @ filter (has_prefix p v) (payloads l)" by blast
    from IHr [of "a1\<lparr>items := items a1 @ [data_val n]\<rparr>"] obtain a2 where
      a2: "startsWith r p v (a1\<lparr>items := items a1 @ [data_val n]\<rparr>) = Inr a2"
      "items a2 = items (a1\<lparr>items := items a1 @ [data_val n]\<rparr>) @ filter (has_prefix p v) (payloads r)"
      by blast
    have "has_prefix p v (data_val n)"
      using eq by (simp add: has_prefix_str [OF s])
    with a1 a2 eq show ?thesis
      by (simp add: step p Let_def del: startsWith.simps)
  next
    case lt
    have "filter (has_prefix p v) (payloads l) = []"
    proof (rule no_prefix_below [OF sl _ lt])
      fix x sx assume "x \<in> set (payloads l)" "get x p = JStr sx"
      with ll show "sx \<le> s"
        using leading_key_left [of p ks "data_val n" x s sx] s by (simp add: list_all_iff)
    qed
    moreover have "\<not> has_prefix p v (data_val n)"
      using lt by (simp add: has_prefix_str [OF s])
    moreover from IHr [of ?a] obtain a1 where "startsWith r p v ?a = Inr a1"
      "items a1 = items ?a @ filter (has_prefix p v) (payloads r)" by blast
    moreover have "take (length v) s \<noteq> v" using lt by simp
    ultimately show ?thesis
      using lt by (simp add: step p Let_def del: startsWith.simps)
  next
    case gt
    have "filter (has_prefix p v) (payloads r) = []"
    proof (rule no_prefix_above [OF sr _ gt])
      fix x sx assume "x \<in> set (payloads r)" "get x p = JStr sx"
      with rr show "s \<le> sx"
        using leading_key_right [of p ks "data_val n" x s sx] s by (simp add: list_all_iff)
    qed
    moreover have "\<not> has_prefix p v (data_val n)"
      using gt by (simp add: has_prefix_str [OF s])
    moreover from IHl [of ?a] obtain a1 where "startsWith l p v ?a = Inr a1"
      "items a1 = items ?a @ filter (has_prefix p v) (payloads l)" by blast
    moreover have "take (length v) s \<noteq> v" "\<not> take (length v) s < v" using gt by simp_all
    ultimately show ?thesis
      by (simp add: step p Let_def del: startsWith.simps)
  qed
qed


lemma parse_Cons: "parse ((p, v) # ix) = IndexData p v # parse ix"
  by (simp add: parse_def)

text \<open>
  Where the tree is ordered ascending on the searched path the pruning loses
  nothing. On a tree built by inserting documents under an index whose first field is
  the searched path in ascending direction, and whose documents all resolve that path
  to a string, \<open>startsWith(path, v)\<close> returns, in the order of the tree, the stored
  documents whose value at the path has \<open>v\<close> as a literal prefix, each as often as it
  was inserted.
\<close>

lemma startsWith_on_leading_ascending_key:
  "list_all (\<lambda>x. is_string (get (JObj x) p)) (d # ds) \<longrightarrow>
     found_items (startsWith (tree_after (build ((p, 1) # ix) pk (d # ds))) p v emptyArr)
       = Some (filter (has_prefix p v)
                 (map item_val (inOrder (tree_after (build ((p, 1) # ix) pk (d # ds))) ''data'' [])))
   \<and> map_option mset
         (found_items (startsWith (tree_after (build ((p, 1) # ix) pk (d # ds))) p v emptyArr))
       = Some (mset (map JObj (filter (\<lambda>x. has_prefix p v (JObj x)) (d # ds))))"
proof
  assume str: "list_all (\<lambda>x. is_string (get (JObj x) p)) (d # ds)"
  let ?t = "tree_after (build ((p, 1) # ix) pk (d # ds))"
  have ne: "(p, 1) # ix \<noteq> []" by simp
  note bf = build_facts [OF ne, of pk d ds]
  have o: "ordered (IndexData p 1 # parse ix) ?t"
    using bf(4) by (simp only: parse_Cons)
  have "set (payloads ?t) = JObj ` set (d # ds)"
    using mset_eq_setD [OF bf(5)] unfolding set_map .
  with str have sp: "list_all (\<lambda>x. is_string (get x p)) (payloads ?t)"
    by (auto simp: list_all_iff)
  from startsWith_ordered [OF o sp, of v emptyArr] obtain a' where
    a': "startsWith ?t p v emptyArr = Inr a'" "items a' = filter (has_prefix p v) (payloads ?t)"
    by (auto simp: emptyArr_def)
  have iv: "map item_val (inOrder ?t ''data'' []) = payloads ?t"
    by (simp add: inOrder_data comp_def item_val_def)
  have "mset (filter (has_prefix p v) (payloads ?t))
        = mset (filter (has_prefix p v) (map JObj (d # ds)))"
    by (simp only: mset_filter bf(5))
  then have m: "mset (filter (has_prefix p v) (payloads ?t))
        = mset (map JObj (filter (\<lambda>x. has_prefix p v (JObj x)) (d # ds)))"
    by (simp only: filter_map comp_def)
  show "found_items (startsWith ?t p v emptyArr)
       = Some (filter (has_prefix p v) (map item_val (inOrder ?t ''data'' [])))
   \<and> map_option mset (found_items (startsWith ?t p v emptyArr))
       = Some (mset (map JObj (filter (\<lambda>x. has_prefix p v (JObj x)) (d # ds))))"
    using a' m by (simp add: found_items_def iv)
qed

lemma startsWith_on_leading_ascending_key_example:
  "list_all (\<lambda>x. is_string (get (JObj x) ''name''))
      [[(''name'', JStr ''bob'')], [(''name'', JStr ''al'')], [(''name'', JStr ''bo'')],
       [(''name'', JStr ''cy'')]]
   \<and> found_items (startsWith (tree_after (build [(''name'', 1)] None
        [[(''name'', JStr ''bob'')], [(''name'', JStr ''al'')], [(''name'', JStr ''bo'')],
         [(''name'', JStr ''cy'')]])) ''name'' ''bo'' emptyArr)
      = Some [JObj [(''name'', JStr ''bo'')], JObj [(''name'', JStr ''bob'')]]
   \<and> filter (\<lambda>x. has_prefix ''name'' ''bo'' (JObj x))
        [[(''name'', JStr ''bob'')], [(''name'', JStr ''al'')], [(''name'', JStr ''bo'')],
         [(''name'', JStr ''cy'')]]
      = [[(''name'', JStr ''bob'')], [(''name'', JStr ''bo'')]]"
proof -
  have h: "list_all (\<lambda>x. is_string (get (JObj x) ''name''))
      [[(''name'', JStr ''bob'')], [(''name'', JStr ''al'')], [(''name'', JStr ''bo'')],
       [(''name'', JStr ''cy'')]]"
    by code_simp
  have e: "found_items (startsWith (tree_after (build [(''name'', 1)] None
        [[(''name'', JStr ''bob'')], [(''name'', JStr ''al'')], [(''name'', JStr ''bo'')],
         [(''name'', JStr ''cy'')]])) ''name'' ''bo'' emptyArr)
      = Some [JObj [(''name'', JStr ''bo'')], JObj [(''name'', JStr ''bob'')]]"
    by code_simp
  have f: "filter (\<lambda>x. has_prefix ''name'' ''bo'' (JObj x))
        [[(''name'', JStr ''bob'')], [(''name'', JStr ''al'')], [(''name'', JStr ''bo'')],
         [(''name'', JStr ''cy'')]]
      = [[(''name'', JStr ''bob'')], [(''name'', JStr ''bo'')]]"
    by code_simp
  from startsWith_on_leading_ascending_key [of "''name''" "[(''name'', JStr ''bob'')]"
     "[[(''name'', JStr ''al'')], [(''name'', JStr ''bo'')], [(''name'', JStr ''cy'')]]"
     "[]" None "''bo''"] h
  have "map_option mset (found_items (startsWith (tree_after (build [(''name'', 1)] None
        [[(''name'', JStr ''bob'')], [(''name'', JStr ''al'')], [(''name'', JStr ''bo'')],
         [(''name'', JStr ''cy'')]])) ''name'' ''bo'' emptyArr))
     = Some (mset (map JObj (filter (\<lambda>x. has_prefix ''name'' ''bo'' (JObj x))
        [[(''name'', JStr ''bob'')], [(''name'', JStr ''al'')], [(''name'', JStr ''bo'')],
         [(''name'', JStr ''cy'')]])))"
    by blast
  with h e f show ?thesis by blast
qed

text \<open>
  C8 fails on the code. \<open>startsWith\<close>, which by its own description searches the
  tree for all matching documents, decides which child to visit by the ascending
  comparison of the truncated field value and never reads the keys of the index,
  while \<open>insert\<close> places a document by the compound comparator, which follows the
  direction of each key. Under the descending index \<open>{name: -1}\<close>, with
  \<open>{name: 'b'}\<close> at the root and \<open>{name: 'a'}\<close> to its right, the search for the
  prefix \<open>a\<close> goes left at the root and returns nothing, although the stored document
  \<open>{name: 'a'}\<close> has that prefix; \<open>findRange\<close>, which visits both children, returns
  it from the same tree, and under the ascending index \<open>{name: 1}\<close> the same search
  on the same documents returns it.
\<close>

theorem startsWith_misses_under_descending_index:
  "found_items (startsWith (tree_after (build [(''name'', -1)] None
        [[(''name'', JStr ''b'')], [(''name'', JStr ''a'')]])) ''name'' ''a'' emptyArr) = Some []
   \<and> inOrder (tree_after (build [(''name'', -1)] None
        [[(''name'', JStr ''b'')], [(''name'', JStr ''a'')]])) ''data'' []
       = [Plain (JObj [(''name'', JStr ''b'')]), Plain (JObj [(''name'', JStr ''a'')])]
   \<and> has_prefix ''name'' ''a'' (JObj [(''name'', JStr ''a'')])
   \<and> found_items (startsWith (tree_after (build [(''name'', -1)] None
        [[(''name'', JStr ''b'')], [(''name'', JStr ''a'')]])) ''name'' ''a'' emptyArr)
      \<noteq> Some (filter (has_prefix ''name'' ''a'')
                 (map item_val (inOrder (tree_after (build [(''name'', -1)] None
                    [[(''name'', JStr ''b'')], [(''name'', JStr ''a'')]])) ''data'' [])))
   \<and> findRange (tree_after (build [(''name'', -1)] None
        [[(''name'', JStr ''b'')], [(''name'', JStr ''a'')]])) ''data'' ''name''
        (JStr ''a'') (JStr ''a'') []
       = [Plain (JObj [(''name'', JStr ''a'')])]
   \<and> found_items (startsWith (tree_after (build [(''name'', 1)] None
        [[(''name'', JStr ''b'')], [(''name'', JStr ''a'')]])) ''name'' ''a'' emptyArr)
       = Some [JObj [(''name'', JStr ''a'')]]"
  by code_simp

section \<open>The store-level splice and the tree-level one\<close>

text \<open>
  An assignment to an object outside a tree leaves the tree as it is; the assignment
  through \<open>rightMost()\<close> lands on the last object of the right spine; and on a store
  that holds a tree without shared objects, \<open>_remove\<close> on the store returns true and
  leaves at the same reference the tree that the tree-level \<open>_remove\<close> computes.
\<close>

lemma frame:
  "rep h ro t \<Longrightarrow> a \<notin> set (addrs h ro t) \<Longrightarrow>
     rep (h(a \<mapsto> x)) ro t \<and> addrs (h(a \<mapsto> x)) ro t = addrs h ro t"
proof (induction t arbitrary: ro)
  case Absent
  then show ?case by simp
next
  case (Node n l r)
  from Node.prems(1) obtain b ob where b: "ro = Some b" "h b = Some ob" "o_fields ob = n"
    "rep h (o_left ob) l" "rep h (o_right ob) r"
    by (auto split: option.splits)
  from Node.prems(2) b have ne: "a \<noteq> b" "a \<notin> set (addrs h (o_left ob) l)"
    "a \<notin> set (addrs h (o_right ob) r)"
    by auto
  from Node.IH(1) [OF b(4) ne(2)] Node.IH(2) [OF b(5) ne(3)] b ne(1)
  show ?case by simp
qed

lemma rep_Node:
  "rep h (Some a) (Node n l r) \<longleftrightarrow>
     (\<exists>ob. h a = Some ob \<and> o_fields ob = n \<and> rep h (o_left ob) l \<and> rep h (o_right ob) r)"
  by (auto split: option.splits)

lemma rep_None_Node [simp]: "\<not> rep h None (Node n l r)"
  by simp

declare rep.simps(2) [simp del]

lemma spine:
  assumes "rep h (Some a) (Node n l r)" "rep h (Some rn) R"
    and "distinct (addrs h (Some a) (Node n l r))"
    and "set (addrs h (Some a) (Node n l r)) \<inter> set (addrs h (Some rn) R) = {}"
  shows "\<exists>m mo. rightMost_store h a = Some m \<and> h m = Some mo
           \<and> m \<in> set (addrs h (Some a) (Node n l r))
           \<and> (r \<noteq> Absent \<longrightarrow> m \<noteq> a)
           \<and> rep (h(m \<mapsto> mo\<lparr>o_right := Some rn\<rparr>)) (Some a) (rightMost_assign (Node n l r) R)"
  using assms
proof (induction r arbitrary: a n l)
  case Absent
  from Absent.prems(1) obtain ob where ob: "h a = Some ob" "o_fields ob = n"
    "rep h (o_left ob) l" "o_right ob = None"
    by (auto simp: rep_Node)
  let ?h = "h(a \<mapsto> ob\<lparr>o_right := Some rn\<rparr>)"
  from Absent.prems(3) ob have "a \<notin> set (addrs h (o_left ob) l)" by simp
  from frame [OF ob(3) this] have l: "rep ?h (o_left ob) l" by simp
  from Absent.prems(4) ob have "a \<notin> set (addrs h (Some rn) R)" by auto
  from frame [OF Absent.prems(2) this] have R: "rep ?h (Some rn) R" by simp
  have rm: "rightMost_store h a = Some a"
    by (subst rightMost_store.simps) (simp add: ob)
  have "rep ?h (Some a) (rightMost_assign (Node n l Absent) R)"
    using ob l R by (simp add: rep_Node)
  moreover have "a \<in> set (addrs h (Some a) (Node n l Absent))"
    using ob by simp
  ultimately show ?case
    using rm ob(1) by blast
next
  case (Node rn' rl rr)
  from Node.prems(1) obtain ob where ob: "h a = Some ob" "o_fields ob = n"
    "rep h (o_left ob) l" "rep h (o_right ob) (Node rn' rl rr)"
    by (auto simp: rep_Node)
  from ob(4) obtain ra where ra: "o_right ob = Some ra"
    by (cases "o_right ob") auto
  have d: "distinct (addrs h (Some ra) (Node rn' rl rr))"
    and dj: "set (addrs h (Some ra) (Node rn' rl rr)) \<inter> set (addrs h (Some rn) R) = {}"
    and an: "a \<notin> set (addrs h (Some ra) (Node rn' rl rr))"
    and lr: "set (addrs h (o_left ob) l) \<inter> set (addrs h (Some ra) (Node rn' rl rr)) = {}"
    using Node.prems(3,4) ob ra by auto
  have rra: "rep h (Some ra) (Node rn' rl rr)"
    using ob(4) ra by (simp only:)
  from Node.IH(2) [OF rra Node.prems(2) d dj]
  obtain m mo where m: "rightMost_store h ra = Some m" "h m = Some mo"
    "m \<in> set (addrs h (Some ra) (Node rn' rl rr))"
    "rep (h(m \<mapsto> mo\<lparr>o_right := Some rn\<rparr>)) (Some ra) (rightMost_assign (Node rn' rl rr) R)"
    by blast
  let ?h = "h(m \<mapsto> mo\<lparr>o_right := Some rn\<rparr>)"
  from m(3) an have ma: "m \<noteq> a" by auto
  from m(3) lr have "m \<notin> set (addrs h (o_left ob) l)" by auto
  from frame [OF ob(3) this] have l: "rep ?h (o_left ob) l" by simp
  have rm: "rightMost_store h a = Some m"
    by (subst rightMost_store.simps) (simp add: ob ra m(1))
  have "m \<in> set (addrs h (Some a) (Node n l (Node rn' rl rr)))"
    using m(3) ob ra by simp
  moreover
  have "rep ?h (Some a) (rightMost_assign (Node n l (Node rn' rl rr)) R)"
    using ma l m(4) ob ra by (simp add: rep_Node)
  ultimately show ?case using rm m(2) ma
    by blast
qed


lemma rep_NodeE:
  assumes "rep h (Some a) (Node n l r)"
  obtains ob where "h a = Some ob" "o_fields ob = n" "rep h (o_left ob) l" "rep h (o_right ob) r"
  using assms by (auto simp: rep_Node)

lemma rep_Node_ref:
  assumes "rep h ro (Node n l r)"
  obtains a where "ro = Some a"
  using assms by (cases ro) simp_all

lemma addrs_Node:
  "h a = Some ob \<Longrightarrow>
   addrs h (Some a) (Node n l r) = a # addrs h (o_left ob) l @ addrs h (o_right ob) r"
  by simp

lemma priv_remove_store_refines:
  assumes "rep h (Some this) t" "distinct (addrs h (Some this) t)"
  shows "\<exists>h'. priv_remove_store h this = Some (True, h')
              \<and> rep h' (Some this) (snd (priv_remove t))"
proof (cases t rule: priv_remove.cases)
  case 1
  with assms(1) show ?thesis by simp
next
  case (2 n ln ll lr R)
  let ?L = "Node ln ll lr"
  from assms(1) [unfolded 2] obtain tob where tob: "h this = Some tob" "o_fields tob = n"
    "rep h (o_left tob) ?L" "rep h (o_right tob) R"
    by (rule rep_NodeE)
  from tob(3) obtain la where la: "o_left tob = Some la" by (rule rep_Node_ref)
  from tob(3) [unfolded la] obtain lob where lob: "h la = Some lob" "o_fields lob = ln"
    "rep h (o_left lob) ll" "rep h (o_right lob) lr"
    by (rule rep_NodeE)
  have a: "addrs h (Some this) t = this # addrs h (Some la) ?L @ addrs h (o_right tob) R"
    using 2 tob(1) la by simp
  have aL: "addrs h (Some la) ?L = la # addrs h (o_left lob) ll @ addrs h (o_right lob) lr"
    using lob(1) by simp
  from assms(2) a have d: "this \<notin> set (addrs h (Some la) ?L)" "this \<notin> set (addrs h (o_right tob) R)"
    "distinct (addrs h (Some la) ?L)"
    "set (addrs h (Some la) ?L) \<inter> set (addrs h (o_right tob) R) = {}"
    by auto
  let ?n' = "n\<lparr>f_data := f_data ln, f_store := f_store ln\<rparr>"
  let ?tob' = "tob\<lparr>o_left := o_left lob, o_right := o_right lob,
                   o_fields := (o_fields tob)\<lparr>f_data := f_data (o_fields lob),
                                               f_store := f_store (o_fields lob)\<rparr>\<rparr>"
  let ?h1 = "h(this \<mapsto> ?tob')"
  note fL = frame [OF tob(3) [unfolded la] d(1), of ?tob']
  have thisla: "this \<noteq> la" using d(1) aL by auto
  have d1: "this \<notin> set (addrs h (o_left lob) ll)" "this \<notin> set (addrs h (o_right lob) lr)"
    using d(1) aL by auto
  note fll = frame [OF lob(3) d1(1), of ?tob']
  note flr = frame [OF lob(4) d1(2), of ?tob']
  show ?thesis
  proof (cases R)
    case Absent
    with tob(4) have rn: "o_right tob = None" by simp
    have p: "priv_remove_store h this = Some (True, ?h1)"
      by (simp add: priv_remove_store_def tob(1) la lob(1) rn)
    have "snd (priv_remove t) = Node ?n' ll lr"
      using 2 Absent by (cases lr) (simp_all add: right_child_def)
    moreover have "rep ?h1 (Some this) (Node ?n' ll lr)"
      using fll flr tob(2) lob(2) by (simp add: rep_Node)
    ultimately show ?thesis using p by simp
  next
    case (Node rn' rl rr)
    from tob(4) [unfolded Node] obtain rn where rn: "o_right tob = Some rn" by (rule rep_Node_ref)
    note fR = frame [OF tob(4) d(2), of ?tob']
    have r1: "rep ?h1 (Some la) ?L" using fL by simp
    have r2: "rep ?h1 (Some rn) R" using fR rn by simp
    have d3: "distinct (addrs ?h1 (Some la) ?L)" using fL d(3) by simp
    have d4: "set (addrs ?h1 (Some la) ?L) \<inter> set (addrs ?h1 (Some rn) R) = {}"
      using fL fR d(4) rn by simp
    from spine [OF r1 r2 d3 d4] obtain m mo where m: "rightMost_store ?h1 la = Some m"
      "?h1 m = Some mo" "m \<in> set (addrs ?h1 (Some la) ?L)" "lr \<noteq> Absent \<longrightarrow> m \<noteq> la"
      "rep (?h1(m \<mapsto> mo\<lparr>o_right := Some rn\<rparr>)) (Some la) (rightMost_assign ?L R)"
      by blast
    let ?h2 = "?h1(m \<mapsto> mo\<lparr>o_right := Some rn\<rparr>)"
    have p: "priv_remove_store h this = Some (True, ?h2)"
      using m(1,2) by (simp add: priv_remove_store_def tob(1) la lob(1) rn Let_def)
    have mthis: "m \<noteq> this" using m(3) fL d(1) by auto
    have h2this: "?h2 this = Some ?tob'" using mthis by simp
    have h1la: "?h1 la = Some lob" using thisla lob(1) by simp
    show ?thesis
    proof (cases lr)
      case Absent
      with lob(4) have lr0: "o_right lob = None" by simp
      have s: "snd (priv_remove t) = Node ?n' ll Absent"
        using 2 Node Absent by simp
      from m(5) Absent have "rep ?h2 (Some la) (Node ln ll R)" by simp
      then obtain ob' where ob': "?h2 la = Some ob'" "rep ?h2 (o_left ob') ll"
        by (rule rep_NodeE)
      have "o_left ob' = o_left lob"
        using ob'(1) h1la m(2) by (cases "m = la") auto
      with ob'(2) have "rep ?h2 (o_left lob) ll" by simp
      then have "rep ?h2 (Some this) (Node ?n' ll Absent)"
        using h2this tob(2) lob(2) lr0 by (simp add: rep_Node del: fun_upd_apply)
      with p s show ?thesis by simp
    next
      case lrN: (Node lrn lrl lrr)
      with m(4) have mla: "m \<noteq> la" by simp
      have s: "snd (priv_remove t) = Node ?n' ll (rightMost_assign lr R)"
        using 2 Node lrN by (simp add: right_child_def)
      from m(5) lrN have "rep ?h2 (Some la) (Node ln ll (rightMost_assign lr R))" by simp
      then obtain ob' where ob': "?h2 la = Some ob'" "rep ?h2 (o_left ob') ll"
        "rep ?h2 (o_right ob') (rightMost_assign lr R)"
        by (rule rep_NodeE)
      have "ob' = lob" using ob'(1) h1la mla by simp
      with ob'(2,3) have "rep ?h2 (o_left lob) ll" "rep ?h2 (o_right lob) (rightMost_assign lr R)"
        by simp_all
      then have "rep ?h2 (Some this) (Node ?n' ll (rightMost_assign lr R))"
        using h2this tob(2) lob(2) by (simp add: rep_Node del: fun_upd_apply)
      with p s show ?thesis by simp
    qed
  qed
next
  case (3 n rn rl rr)
  let ?R = "Node rn rl rr"
  from assms(1) [unfolded 3] obtain tob where tob: "h this = Some tob" "o_fields tob = n"
    "rep h (o_left tob) Absent" "rep h (o_right tob) ?R"
    by (rule rep_NodeE)
  from tob(3) have tl: "o_left tob = None" by simp
  from tob(4) obtain ra where ra: "o_right tob = Some ra" by (rule rep_Node_ref)
  from tob(4) [unfolded ra] obtain rob where rob: "h ra = Some rob" "o_fields rob = rn"
    "rep h (o_left rob) rl" "rep h (o_right rob) rr"
    by (rule rep_NodeE)
  from assms(2) 3 tob(1) tl ra rob(1)
  have d: "this \<notin> set (addrs h (o_left rob) rl)" "this \<notin> set (addrs h (o_right rob) rr)"
    by auto
  let ?tob' = "tob\<lparr>o_left := o_left rob, o_right := o_right rob,
                   o_fields := (o_fields tob)\<lparr>f_data := f_data (o_fields rob),
                                               f_store := f_store (o_fields rob)\<rparr>\<rparr>"
  have p: "priv_remove_store h this = Some (True, h(this \<mapsto> ?tob'))"
    by (simp add: priv_remove_store_def tob(1) tl ra rob(1))
  have "rep (h(this \<mapsto> ?tob')) (Some this) (snd (priv_remove t))"
    using frame [OF rob(3) d(1), of ?tob'] frame [OF rob(4) d(2), of ?tob'] 3 tob(2) rob(2)
    by (simp add: rep_Node)
  with p show ?thesis by blast
next
  case (4 n)
  from assms(1) [unfolded 4] obtain tob where tob: "h this = Some tob" "o_fields tob = n"
    "rep h (o_left tob) Absent" "rep h (o_right tob) Absent"
    by (rule rep_NodeE)
  then show ?thesis
    using 4 by (simp add: priv_remove_store_def clear_def rep_Node)
qed

section \<open>Removal\<close>

lemma insert_child_unkeyed:
  "insert_child n d = Inr c \<Longrightarrow> \<exists>nn. c = Node nn Absent Absent \<and> f_primaryKey nn = None"
  by (auto simp: insert_child_def BinaryTree_def init_def f_binaryTree_def data_set_def Let_def
        fresh_node_def split: sum.splits option.splits)

lemma unkeyed_Node [simp]:
  "unkeyed (Node n l r) \<longleftrightarrow> f_primaryKey n = None \<and> unkeyed l \<and> unkeyed r"
  by (auto simp: unkeyed_def)

lemma unkeyed_Absent [simp]: "unkeyed Absent"
  by (simp add: unkeyed_def)

lemma data_set_pk: "data_set d n = Inr n' \<Longrightarrow> f_primaryKey n' = f_primaryKey n"
  by (auto simp: data_set_def split: sum.splits)

lemma insert_bt_unkeyed:
  "insert_bt t d = Inr (b, t') \<Longrightarrow>
     (unkeyed t \<longrightarrow> unkeyed t')
   \<and> (case t of Absent \<Rightarrow> True
       | Node n l r \<Rightarrow> unkeyed l \<and> unkeyed r \<longrightarrow>
           (\<exists>n' l' r'. t' = Node n' l' r' \<and> f_primaryKey n' = f_primaryKey n
                        \<and> unkeyed l' \<and> unkeyed r'))"
proof (induction t arbitrary: b t')
  case Absent
  then show ?case by simp
next
  case (Node n l r)
  show ?case
  proof (cases "f_data n")
    case None
    with Node.prems show ?thesis
      by (auto split: sum.splits dest: data_set_pk)
  next
    case (Some cur)
    note r = insert_bt_routes [OF Some, of l r d]
    show ?thesis
    proof (cases "priv_compareFunc (f_keys n) (JObj cur) (JObj d) = -1")
      case True
      show ?thesis
      proof (cases r)
        case Absent
        with True Node.prems r show ?thesis
          by (auto simp del: insert_bt.simps split: sum.splits dest: insert_child_unkeyed)
      next
        case (Node rn rl rr)
        with True Node.prems r obtain b1 r' where r': "insert_bt r d = Inr (b1, r')" "t' = Node n l r'"
          by (auto simp del: insert_bt.simps split: sum.splits)
        from Node.IH(2) [OF r'(1)] have "unkeyed r \<longrightarrow> unkeyed r'" by simp
        with r' show ?thesis by simp
      qed
    next
      case False
      show ?thesis
      proof (cases l)
        case Absent
        with False Node.prems r show ?thesis
          by (auto simp del: insert_bt.simps split: sum.splits dest: insert_child_unkeyed)
      next
        case (Node ln ll lr)
        with False Node.prems r obtain b1 l' where l': "insert_bt l d = Inr (b1, l')" "t' = Node n l' r"
          by (auto simp del: insert_bt.simps split: sum.splits)
        from Node.IH(1) [OF l'(1)] have "unkeyed l \<longrightarrow> unkeyed l'" by simp
        with l' show ?thesis by simp
      qed
    qed
  qed
qed

lemma rightMost_assign_unkeyed:
  "unkeyed t \<Longrightarrow> unkeyed rn \<Longrightarrow> unkeyed (rightMost_assign t rn)"
  by (induction t rn rule: rightMost_assign.induct) simp_all

lemma priv_remove_unkeyed:
  "(unkeyed t \<longrightarrow> unkeyed (snd (priv_remove t)))
   \<and> (case t of Absent \<Rightarrow> True
       | Node n l r \<Rightarrow> unkeyed l \<and> unkeyed r \<longrightarrow>
           (\<exists>n' l' r'. snd (priv_remove t) = Node n' l' r' \<and> f_primaryKey n' = f_primaryKey n
                        \<and> unkeyed l' \<and> unkeyed r'))"
proof (cases t rule: priv_remove.cases)
  case 1
  then show ?thesis by simp
next
  case (2 n ln ll lr rightNode)
  show ?thesis
  proof (cases rightNode)
    case Absent
    with 2 show ?thesis by (cases lr) (simp_all add: right_child_def)
  next
    case (Node rn rl rr)
    have "unkeyed lr \<Longrightarrow> unkeyed rightNode \<Longrightarrow> unkeyed (rightMost_assign lr rightNode)"
      by (rule rightMost_assign_unkeyed)
    with 2 Node show ?thesis
      by (cases lr) (auto simp: right_child_def)
  qed
next
  case (3 n rn rl rr)
  then show ?thesis by simp
next
  case (4 n)
  then show ?thesis by (simp add: clear_def)
qed


lemma priv_remove_fst [simp]: "fst (priv_remove t) = True"
  by (cases t rule: priv_remove.cases) (simp_all add: Let_def)

lemma remove_unkeyed:
  "remove t d = Inr (b, t') \<Longrightarrow>
     (unkeyed t \<longrightarrow> unkeyed t')
   \<and> (case t of Absent \<Rightarrow> True
       | Node n l r \<Rightarrow> unkeyed l \<and> unkeyed r \<longrightarrow>
           (\<exists>n' l' r'. t' = Node n' l' r' \<and> f_primaryKey n' = f_primaryKey n
                        \<and> unkeyed l' \<and> unkeyed r'))"
proof (induction t arbitrary: b t')
  case Absent
  then show ?case by simp
next
  case (Node n l r)
  from Node.prems obtain cur where cur: "f_data n = Some cur"
    by (cases "f_data n") (simp_all add: Let_def)
  let ?pk = "propertyKey (f_primaryKey n)"
  let ?c = "priv_compareFunc (f_keys n) (JObj cur) (JObj d)"
  show ?case
  proof (cases "strict_eq (property cur ?pk) (property d ?pk)")
    case True
    with Node.prems cur have "t' = snd (priv_remove (Node n l r))"
      by (auto simp: Let_def simp del: priv_remove.simps)
    with priv_remove_unkeyed [of "Node n l r"] show ?thesis
      by (simp del: priv_remove.simps)
  next
    case False
    consider (right) "?c = -1" "r \<noteq> Absent" | (left) "\<not> (?c = -1 \<and> r \<noteq> Absent)" "?c = 1" "l \<noteq> Absent"
      | (none) "\<not> (?c = -1 \<and> r \<noteq> Absent)" "\<not> (?c = 1 \<and> l \<noteq> Absent)"
      by blast
    then show ?thesis
    proof cases
      case right
      with Node.prems cur False obtain r' where r': "remove r d = Inr (b, r')" "t' = Node n l r'"
        by (auto simp: Let_def split: sum.splits)
      from Node.IH(2) [OF r'(1)] r'(2) show ?thesis by simp
    next
      case left
      with Node.prems cur False obtain l' where l': "remove l d = Inr (b, l')" "t' = Node n l' r"
        by (auto simp: Let_def split: sum.splits)
      from Node.IH(1) [OF l'(1)] l'(2) show ?thesis by simp
    next
      case none
      with Node.prems cur False have "t' = Node n l r"
        by (auto simp: Let_def split: sum.splits)
      then show ?thesis by simp
    qed
  qed
qed

lemma run_children_unkeyed:
  "run (Node n l r) cs = Inr t \<Longrightarrow> unkeyed l \<Longrightarrow> unkeyed r \<Longrightarrow>
     \<exists>n' l' r'. t = Node n' l' r' \<and> f_primaryKey n' = f_primaryKey n \<and> unkeyed l' \<and> unkeyed r'"
proof (induction cs arbitrary: n l r)
  case Nil
  then show ?case by auto
next
  case (Cons c cs)
  show ?case
  proof (cases c)
    case (Insert d)
    with Cons.prems(1) obtain b t1 where t1: "insert_bt (Node n l r) d = Inr (b, t1)" "run t1 cs = Inr t"
      by (auto simp del: insert_bt.simps split: sum.splits)
    from insert_bt_unkeyed [OF t1(1)] Cons.prems(2,3) obtain n1 l1 r1 where
      "t1 = Node n1 l1 r1" "f_primaryKey n1 = f_primaryKey n" "unkeyed l1" "unkeyed r1"
      by auto
    with Cons.IH [of n1 l1 r1] t1(2) show ?thesis by auto
  next
    case (Remove d)
    with Cons.prems(1) obtain b t1 where t1: "remove (Node n l r) d = Inr (b, t1)" "run t1 cs = Inr t"
      by (auto simp del: remove.simps split: sum.splits)
    from remove_unkeyed [OF t1(1)] Cons.prems(2,3) obtain n1 l1 r1 where
      "t1 = Node n1 l1 r1" "f_primaryKey n1 = f_primaryKey n" "unkeyed l1" "unkeyed r1"
      by auto
    with Cons.IH [of n1 l1 r1] t1(2) show ?thesis by auto
  qed
qed

lemma remove_unkeyed_node:
  assumes "f_primaryKey cn = None" "f_data cn = Some x"
    "strict_eq (property x ''undefined'') (property d ''undefined'')"
  shows "remove (Node cn cl cr) d = Inr (priv_remove (Node cn cl cr))"
  using assms by (simp add: Let_def propertyKey_def del: priv_remove.simps)

lemma no_undefined_property:
  "map_of x ''undefined'' = None \<Longrightarrow> map_of d ''undefined'' = None \<Longrightarrow>
   strict_eq (property x ''undefined'') (property d ''undefined'')"
  by (simp add: property_def)

text \<open>
  C4 (as the code has it). Every node that \<open>insert\<close> constructs for a child branch
  has an undefined primary key, and in every tree reached from a new tree by calls of
  \<open>insert\<close> and \<open>remove\<close>, the removed documents having primitive values under the
  names that the primary-key check reads, no node below the root has a primary key.
  When \<open>remove\<close> is called on such a node and the node holds a payload, its
  primary-key check reads the property named \<open>undefined\<close> of the payload and of the
  document: when one of the two values is primitive and the two are strictly equal,
  as they are when neither has such a property, the check matches and the node is
  spliced, whether or not it holds the document. So a \<open>remove\<close> whose check fails at
  a node, one of the two values compared there being primitive, and which descends to
  a child of it on the comparator's answer, returns true with that child spliced when
  neither the child's payload nor the document has a property named \<open>undefined\<close>.
\<close>

theorem remove_splices_any_child_reached:
  "(insert_child n d = Inr c \<longrightarrow> (\<exists>nn. c = Node nn Absent Absent \<and> f_primaryKey nn = None))
   \<and> (BinaryTree seed ixo pk = Inr new \<and> list_all (primitive_keys pk) cs
        \<and> run new cs = Inr t \<longrightarrow>
        list_all (\<lambda>n. f_primaryKey n = None) (child_nodes t))
   \<and> (f_primaryKey cn = None \<and> f_data cn = Some x
        \<and> ((primitive (property x ''undefined'') \<or> primitive (property d ''undefined''))
              \<and> strict_eq (property x ''undefined'') (property d ''undefined'')
            \<or> map_of x ''undefined'' = None \<and> map_of d ''undefined'' = None) \<longrightarrow>
        remove (Node cn cl cr) d = Inr (priv_remove (Node cn cl cr))
        \<and> returned (remove (Node cn cl cr) d) = Some True)
   \<and> (f_data n = Some cur
        \<and> (primitive (property cur (propertyKey (f_primaryKey n)))
            \<or> primitive (property d (propertyKey (f_primaryKey n))))
        \<and> \<not> strict_eq (property cur (propertyKey (f_primaryKey n)))
                       (property d (propertyKey (f_primaryKey n)))
        \<and> f_primaryKey cn = None \<and> f_data cn = Some x
        \<and> map_of x ''undefined'' = None \<and> map_of d ''undefined'' = None \<longrightarrow>
        (priv_compareFunc (f_keys n) (JObj cur) (JObj d) = 1 \<longrightarrow>
           remove (Node n (Node cn cl cr) r) d
             = Inr (True, Node n (snd (priv_remove (Node cn cl cr))) r))
      \<and> (priv_compareFunc (f_keys n) (JObj cur) (JObj d) = -1 \<longrightarrow>
           remove (Node n l (Node cn cl cr)) d
             = Inr (True, Node n l (snd (priv_remove (Node cn cl cr))))))"
proof (intro conjI impI)
  assume "insert_child n d = Inr c"
  then show "\<exists>nn. c = Node nn Absent Absent \<and> f_primaryKey nn = None"
    by (rule insert_child_unkeyed)
next
  assume a: "BinaryTree seed ixo pk = Inr new \<and> list_all (primitive_keys pk) cs
        \<and> run new cs = Inr t"
  then obtain n0 where "new = Node n0 Absent Absent"
    by (auto simp: BinaryTree_def split: sum.splits)
  with a run_children_unkeyed [of n0 Absent Absent cs t]
  obtain n' l' r' where "t = Node n' l' r'" "unkeyed l'" "unkeyed r'"
    by auto
  then show "list_all (\<lambda>n. f_primaryKey n = None) (child_nodes t)"
    by (simp add: child_nodes_def unkeyed_def)
next
  assume a: "f_primaryKey cn = None \<and> f_data cn = Some x
        \<and> ((primitive (property x ''undefined'') \<or> primitive (property d ''undefined''))
              \<and> strict_eq (property x ''undefined'') (property d ''undefined'')
            \<or> map_of x ''undefined'' = None \<and> map_of d ''undefined'' = None)"
  then have se: "strict_eq (property x ''undefined'') (property d ''undefined'')"
    using no_undefined_property [of x d] by blast
  from a se show r: "remove (Node cn cl cr) d = Inr (priv_remove (Node cn cl cr))"
    by (intro remove_unkeyed_node) simp_all
  have "returned (Inr (priv_remove (Node cn cl cr)) :: error + bool \<times> tree) = Some True"
    using priv_remove_fst [of "Node cn cl cr"]
    by (simp add: returned_def case_prod_unfold del: priv_remove.simps priv_remove_fst)
  then show "returned (remove (Node cn cl cr) d) = Some True"
    by (simp only: r)
next
  assume a: "f_data n = Some cur
        \<and> (primitive (property cur (propertyKey (f_primaryKey n)))
            \<or> primitive (property d (propertyKey (f_primaryKey n))))
        \<and> \<not> strict_eq (property cur (propertyKey (f_primaryKey n)))
                       (property d (propertyKey (f_primaryKey n)))
        \<and> f_primaryKey cn = None \<and> f_data cn = Some x
        \<and> map_of x ''undefined'' = None \<and> map_of d ''undefined'' = None"
  then have r: "remove (Node cn cl cr) d = Inr (priv_remove (Node cn cl cr))"
    using no_undefined_property [of x d] by (intro remove_unkeyed_node) simp_all
  { assume "priv_compareFunc (f_keys n) (JObj cur) (JObj d) = 1"
    with a show "remove (Node n (Node cn cl cr) r) d
             = Inr (True, Node n (snd (priv_remove (Node cn cl cr))) r)"
      using r by (simp add: Let_def case_prod_unfold del: priv_remove.simps remove.simps
                       add: remove.simps(2) [of n "Node cn cl cr" r d]) }
  { assume "priv_compareFunc (f_keys n) (JObj cur) (JObj d) = -1"
    with a show "remove (Node n l (Node cn cl cr)) d
             = Inr (True, Node n l (snd (priv_remove (Node cn cl cr))))"
      using r by (simp add: Let_def case_prod_unfold del: priv_remove.simps remove.simps
                       add: remove.simps(2) [of n l "Node cn cl cr" d]) }
qed

theorem remove_splices_any_child_reached_witness:
  "f_data ((leaf [(''a'', 1)] [(''id'', JNum 1), (''a'', JNum 2)])\<lparr>f_primaryKey := Some ''id''\<rparr>)
     = Some [(''id'', JNum 1), (''a'', JNum 2)]
   \<and> primitive (property [(''id'', JNum 3), (''a'', JNum 0)] ''id'')
   \<and> \<not> strict_eq (property [(''id'', JNum 1), (''a'', JNum 2)] ''id'')
                   (property [(''id'', JNum 3), (''a'', JNum 0)] ''id'')
   \<and> f_primaryKey (leaf [(''a'', 1)] [(''id'', JNum 2), (''a'', JNum 1)]) = None
   \<and> map_of [(''id'', JNum 2), (''a'', JNum 1)] ''undefined'' = None
   \<and> map_of [(''id'', JNum 3), (''a'', JNum 0)] ''undefined'' = None
   \<and> priv_compareFunc (parse [(''a'', 1)]) (JObj [(''id'', JNum 1), (''a'', JNum 2)])
        (JObj [(''id'', JNum 3), (''a'', JNum 0)]) = 1
   \<and> tree_after (build [(''a'', 1)] (Some ''id'')
        [[(''id'', JNum 1), (''a'', JNum 2)], [(''id'', JNum 2), (''a'', JNum 1)],
         [(''id'', JNum 3), (''a'', JNum 0)]])
       = Node ((leaf [(''a'', 1)] [(''id'', JNum 1), (''a'', JNum 2)])\<lparr>f_primaryKey := Some ''id''\<rparr>)
           (Node (leaf [(''a'', 1)] [(''id'', JNum 2), (''a'', JNum 1)])
              (Node (leaf [(''a'', 1)] [(''id'', JNum 3), (''a'', JNum 0)]) Absent Absent) Absent)
           Absent
   \<and> BinaryTree None (Some [(''a'', 1)]) (Some ''id'')
       = Inr (Node (fresh_node\<lparr>f_primaryKey := Some ''id'', f_index := Some [(''a'', 1)],
                     f_keys := parse [(''a'', 1)]\<rparr>) Absent Absent)
   \<and> list_all (primitive_keys (Some ''id''))
          [Insert [(''id'', JNum 1), (''a'', JNum 2)], Insert [(''id'', JNum 2), (''a'', JNum 1)],
           Insert [(''id'', JNum 3), (''a'', JNum 0)], Remove [(''id'', JNum 3), (''a'', JNum 0)]]
   \<and> run (Node (fresh_node\<lparr>f_primaryKey := Some ''id'', f_index := Some [(''a'', 1)],
                     f_keys := parse [(''a'', 1)]\<rparr>) Absent Absent)
          [Insert [(''id'', JNum 1), (''a'', JNum 2)], Insert [(''id'', JNum 2), (''a'', JNum 1)],
           Insert [(''id'', JNum 3), (''a'', JNum 0)], Remove [(''id'', JNum 3), (''a'', JNum 0)]]
       = Inr (Node ((leaf [(''a'', 1)] [(''id'', JNum 1), (''a'', JNum 2)])\<lparr>f_primaryKey := Some ''id''\<rparr>)
             (Node ((leaf [(''a'', 1)] [(''id'', JNum 3), (''a'', JNum 0)])\<lparr>f_hash := JNum 1\<rparr>)
                Absent Absent)
             Absent)
   \<and> list_all (\<lambda>n. f_primaryKey n = None)
        (child_nodes (Node ((leaf [(''a'', 1)] [(''id'', JNum 1), (''a'', JNum 2)])\<lparr>f_primaryKey := Some ''id''\<rparr>)
             (Node ((leaf [(''a'', 1)] [(''id'', JNum 3), (''a'', JNum 0)])\<lparr>f_hash := JNum 1\<rparr>)
                Absent Absent)
             Absent))
   \<and> remove (Node ((leaf [(''a'', 1)] [(''id'', JNum 1), (''a'', JNum 2)])\<lparr>f_primaryKey := Some ''id''\<rparr>)
           (Node (leaf [(''a'', 1)] [(''id'', JNum 2), (''a'', JNum 1)])
              (Node (leaf [(''a'', 1)] [(''id'', JNum 3), (''a'', JNum 0)]) Absent Absent) Absent)
           Absent) [(''id'', JNum 3), (''a'', JNum 0)]
       = Inr (True,
           Node ((leaf [(''a'', 1)] [(''id'', JNum 1), (''a'', JNum 2)])\<lparr>f_primaryKey := Some ''id''\<rparr>)
             (Node ((leaf [(''a'', 1)] [(''id'', JNum 3), (''a'', JNum 0)])\<lparr>f_hash := JNum 1\<rparr>)
                Absent Absent)
             Absent)"
proof -
  let ?n = "(leaf [(''a'', 1)] [(''id'', JNum 1), (''a'', JNum 2)])\<lparr>f_primaryKey := Some ''id''\<rparr>"
  let ?cn = "leaf [(''a'', 1)] [(''id'', JNum 2), (''a'', JNum 1)]"
  let ?cl = "Node (leaf [(''a'', 1)] [(''id'', JNum 3), (''a'', JNum 0)]) Absent Absent"
  have h: "f_data ?n = Some [(''id'', JNum 1), (''a'', JNum 2)]"
    "\<not> strict_eq (property [(''id'', JNum 1), (''a'', JNum 2)] (propertyKey (f_primaryKey ?n)))
                (property [(''id'', JNum 3), (''a'', JNum 0)] (propertyKey (f_primaryKey ?n)))"
    "f_primaryKey ?cn = None" "f_data ?cn = Some [(''id'', JNum 2), (''a'', JNum 1)]"
    "map_of [(''id'', JNum 2), (''a'', JNum 1)] ''undefined'' = None"
    "map_of [(''id'', JNum 3), (''a'', JNum 0)] ''undefined'' = None"
    by (simp_all add: leaf_def property_def propertyKey_def)
  have pr: "primitive (property [(''id'', JNum 3), (''a'', JNum 0)] (propertyKey (f_primaryKey ?n)))"
    by (simp add: leaf_def property_def propertyKey_def primitive_def)
  have k: "f_keys ?n = parse [(''a'', 1)]" by (simp add: leaf_def)
  have c: "priv_compareFunc (parse [(''a'', 1)]) (JObj [(''id'', JNum 1), (''a'', JNum 2)])
        (JObj [(''id'', JNum 3), (''a'', JNum 0)]) = 1"
    by code_simp
  have b: "tree_after (build [(''a'', 1)] (Some ''id'')
        [[(''id'', JNum 1), (''a'', JNum 2)], [(''id'', JNum 2), (''a'', JNum 1)],
         [(''id'', JNum 3), (''a'', JNum 0)]])
       = Node ?n (Node ?cn ?cl Absent) Absent"
    by code_simp
  have p: "snd (priv_remove (Node ?cn ?cl Absent))
       = Node ((leaf [(''a'', 1)] [(''id'', JNum 3), (''a'', JNum 0)])\<lparr>f_hash := JNum 1\<rparr>) Absent Absent"
    by (simp add: leaf_def parse_def property_def)
  let ?new = "Node (fresh_node\<lparr>f_primaryKey := Some ''id'', f_index := Some [(''a'', 1)],
                     f_keys := parse [(''a'', 1)]\<rparr>) Absent Absent"
  let ?after = "Node ?n (Node ((leaf [(''a'', 1)] [(''id'', JNum 3), (''a'', JNum 0)])\<lparr>f_hash := JNum 1\<rparr>)
                Absent Absent) Absent"
  let ?cs = "[Insert [(''id'', JNum 1), (''a'', JNum 2)], Insert [(''id'', JNum 2), (''a'', JNum 1)],
           Insert [(''id'', JNum 3), (''a'', JNum 0)], Remove [(''id'', JNum 3), (''a'', JNum 0)]]"
  have bt: "BinaryTree None (Some [(''a'', 1)]) (Some ''id'') = Inr ?new"
    by code_simp
  have pc: "list_all (primitive_keys (Some ''id'')) ?cs"
    by code_simp
  have rn: "run ?new ?cs = Inr ?after"
    by code_simp
  note inst = remove_splices_any_child_reached
         [where n = ?n and cur = "[(''id'', JNum 1), (''a'', JNum 2)]"
            and d = "[(''id'', JNum 3), (''a'', JNum 0)]" and cn = ?cn
            and x = "[(''id'', JNum 2), (''a'', JNum 1)]" and cl = ?cl and cr = Absent
            and r = Absent and seed = None and ixo = "Some [(''a'', 1)]" and pk = "Some ''id''"
            and new = ?new and cs = ?cs and t = ?after]
  from inst bt pc rn have ch: "list_all (\<lambda>n. f_primaryKey n = None) (child_nodes ?after)"
    by blast
  from inst h pr c [folded k]
  have "remove (Node ?n (Node ?cn ?cl Absent) Absent) [(''id'', JNum 3), (''a'', JNum 0)]
       = Inr (True, Node ?n (snd (priv_remove (Node ?cn ?cl Absent))) Absent)"
    by blast
  with h(1,3,5,6) h(2) pr c b bt pc rn ch show ?thesis
    unfolding p by (simp add: leaf_def propertyKey_def del: run.simps)
qed

text \<open>
  C4 as stated fails: a remove that descends into a child does not splice it when the
  child's payload and the document differ in a property named \<open>undefined\<close>, and it
  throws when the child has been cleared by an earlier splice and holds no payload.
\<close>

theorem remove_on_child_does_not_always_splice:
  "tree_after (build [(''a'', 1)] (Some ''id'')
      [[(''id'', JNum 1), (''a'', JNum 2), (''undefined'', JNum 1)],
       [(''id'', JNum 2), (''a'', JNum 1), (''undefined'', JNum 2)]])
     = Node ((leaf [(''a'', 1)] [(''id'', JNum 1), (''a'', JNum 2), (''undefined'', JNum 1)])
               \<lparr>f_primaryKey := Some ''id''\<rparr>)
         (Node (leaf [(''a'', 1)] [(''id'', JNum 2), (''a'', JNum 1), (''undefined'', JNum 2)])
            Absent Absent)
         Absent
   \<and> remove (tree_after (build [(''a'', 1)] (Some ''id'')
      [[(''id'', JNum 1), (''a'', JNum 2), (''undefined'', JNum 1)],
       [(''id'', JNum 2), (''a'', JNum 1), (''undefined'', JNum 2)]]))
      [(''id'', JNum 3), (''a'', JNum 0), (''undefined'', JNum 3)]
     = Inr (False, tree_after (build [(''a'', 1)] (Some ''id'')
      [[(''id'', JNum 1), (''a'', JNum 2), (''undefined'', JNum 1)],
       [(''id'', JNum 2), (''a'', JNum 1), (''undefined'', JNum 2)]]))
   \<and> remove (Node (leaf [(''a'', 1)] [(''id'', JNum 2), (''a'', JNum 1), (''undefined'', JNum 2)])
               Absent Absent)
        [(''id'', JNum 3), (''a'', JNum 0), (''undefined'', JNum 3)]
     \<noteq> Inr (priv_remove
         (Node (leaf [(''a'', 1)] [(''id'', JNum 2), (''a'', JNum 1), (''undefined'', JNum 2)])
               Absent Absent))
   \<and> returned (remove (tree_after (build [(''a'', 1)] (Some ''id'')
        [[(''id'', JNum 1), (''a'', JNum 2)], [(''id'', JNum 2), (''a'', JNum 1)]]))
        [(''id'', JNum 2), (''a'', JNum 1)]) = Some True
   \<and> remove (tree_after (remove (tree_after (build [(''a'', 1)] (Some ''id'')
        [[(''id'', JNum 1), (''a'', JNum 2)], [(''id'', JNum 2), (''a'', JNum 1)]]))
        [(''id'', JNum 2), (''a'', JNum 1)])) [(''id'', JNum 2), (''a'', JNum 1)]
     = Inl TypeError"
  by code_simp

section \<open>Documents lost by a removal\<close>

text \<open>
  C1 fails on the code. With the primary key \<open>id\<close> and the index \<open>{a: 1}\<close>, the
  documents \<open>{id:2,a:2}\<close>, \<open>{id:1,a:1}\<close>, \<open>{id:3,a:3}\<close> are inserted in this order:
  the first is the root, the second its left child, the third its right child.
  \<open>remove({id:2,a:2})\<close> matches the root by its primary key and returns true; the left
  child has no right child, so \<open>leftNode.rightMost()\<close> is the left child itself, which no
  node references any more, and the right subtree is attached to it: afterwards
  \<open>inOrder('data')\<close> is \<open>[{id:1,a:1}]\<close> and \<open>lookup({id:3,a:3})\<close> is empty. The same is
  evaluated on the object store, where object 0 ends with an undefined \<open>_right\<close> and the
  unreferenced object 1 carries the reference to object 2. With the documents
  \<open>{id:1,a:2}\<close>, \<open>{id:2,a:1}\<close>, \<open>{id:3,a:0}\<close>, which form a chain to the left,
  \<open>remove({id:3,a:0})\<close> returns true after splicing the child that holds \<open>{id:2,a:1}\<close>:
  \<open>lookup({id:3,a:0})\<close> still returns the document and \<open>{id:2,a:1}\<close> is gone.
\<close>

theorem remove_loses_other_documents:
  "returned (remove (tree_after (build [(''a'', 1)] (Some ''id'')
       [[(''id'', JNum 2), (''a'', JNum 2)], [(''id'', JNum 1), (''a'', JNum 1)],
        [(''id'', JNum 3), (''a'', JNum 3)]])) [(''id'', JNum 2), (''a'', JNum 2)]) = Some True
   \<and> inOrder (tree_after (remove (tree_after (build [(''a'', 1)] (Some ''id'')
       [[(''id'', JNum 2), (''a'', JNum 2)], [(''id'', JNum 1), (''a'', JNum 1)],
        [(''id'', JNum 3), (''a'', JNum 3)]])) [(''id'', JNum 2), (''a'', JNum 2)])) ''data'' []
      = [Plain (JObj [(''id'', JNum 1), (''a'', JNum 1)])]
   \<and> lookup (tree_after (remove (tree_after (build [(''a'', 1)] (Some ''id'')
       [[(''id'', JNum 2), (''a'', JNum 2)], [(''id'', JNum 1), (''a'', JNum 1)],
        [(''id'', JNum 3), (''a'', JNum 3)]])) [(''id'', JNum 2), (''a'', JNum 2)]))
        [(''id'', JNum 3), (''a'', JNum 3)] [] = []
   \<and> rep (Map.empty
        (0 \<mapsto> \<lparr>o_fields = (leaf [(''a'', 1)] [(''id'', JNum 2), (''a'', JNum 2)])
                              \<lparr>f_primaryKey := Some ''id''\<rparr>,
                o_left = Some 1, o_right = Some 2\<rparr>,
         1 \<mapsto> \<lparr>o_fields = leaf [(''a'', 1)] [(''id'', JNum 1), (''a'', JNum 1)],
                o_left = None, o_right = None\<rparr>,
         2 \<mapsto> \<lparr>o_fields = leaf [(''a'', 1)] [(''id'', JNum 3), (''a'', JNum 3)],
                o_left = None, o_right = None\<rparr>)) (Some 0)
       (tree_after (build [(''a'', 1)] (Some ''id'')
         [[(''id'', JNum 2), (''a'', JNum 2)], [(''id'', JNum 1), (''a'', JNum 1)],
          [(''id'', JNum 3), (''a'', JNum 3)]]))
   \<and> (case priv_remove_store (Map.empty
        (0 \<mapsto> \<lparr>o_fields = (leaf [(''a'', 1)] [(''id'', JNum 2), (''a'', JNum 2)])
                              \<lparr>f_primaryKey := Some ''id''\<rparr>,
                o_left = Some 1, o_right = Some 2\<rparr>,
         1 \<mapsto> \<lparr>o_fields = leaf [(''a'', 1)] [(''id'', JNum 1), (''a'', JNum 1)],
                o_left = None, o_right = None\<rparr>,
         2 \<mapsto> \<lparr>o_fields = leaf [(''a'', 1)] [(''id'', JNum 3), (''a'', JNum 3)],
                o_left = None, o_right = None\<rparr>)) 0 of
       None \<Rightarrow> False
     | Some (b, h') \<Rightarrow> b \<and> map_option o_right (h' 0) = Some None
          \<and> map_option o_right (h' 1) = Some (Some 2)
          \<and> rep h' (Some 0)
               (tree_after (remove (tree_after (build [(''a'', 1)] (Some ''id'')
                  [[(''id'', JNum 2), (''a'', JNum 2)], [(''id'', JNum 1), (''a'', JNum 1)],
                   [(''id'', JNum 3), (''a'', JNum 3)]])) [(''id'', JNum 2), (''a'', JNum 2)])))
   \<and> returned (remove (tree_after (build [(''a'', 1)] (Some ''id'')
       [[(''id'', JNum 1), (''a'', JNum 2)], [(''id'', JNum 2), (''a'', JNum 1)],
        [(''id'', JNum 3), (''a'', JNum 0)]])) [(''id'', JNum 3), (''a'', JNum 0)]) = Some True
   \<and> lookup (tree_after (remove (tree_after (build [(''a'', 1)] (Some ''id'')
       [[(''id'', JNum 1), (''a'', JNum 2)], [(''id'', JNum 2), (''a'', JNum 1)],
        [(''id'', JNum 3), (''a'', JNum 0)]])) [(''id'', JNum 3), (''a'', JNum 0)]))
        [(''id'', JNum 3), (''a'', JNum 0)] [] = [JObj [(''id'', JNum 3), (''a'', JNum 0)]]
   \<and> inOrder (tree_after (remove (tree_after (build [(''a'', 1)] (Some ''id'')
       [[(''id'', JNum 1), (''a'', JNum 2)], [(''id'', JNum 2), (''a'', JNum 1)],
        [(''id'', JNum 3), (''a'', JNum 0)]])) [(''id'', JNum 3), (''a'', JNum 0)])) ''data'' []
      = [Plain (JObj [(''id'', JNum 3), (''a'', JNum 0)]),
         Plain (JObj [(''id'', JNum 1), (''a'', JNum 2)])]"
proof -
  have t: "tree_after (build [(''a'', 1)] (Some ''id'')
       [[(''id'', JNum 2), (''a'', JNum 2)], [(''id'', JNum 1), (''a'', JNum 1)],
        [(''id'', JNum 3), (''a'', JNum 3)]])
   = Node ((leaf [(''a'', 1)] [(''id'', JNum 2), (''a'', JNum 2)])\<lparr>f_primaryKey := Some ''id''\<rparr>)
       (Node (leaf [(''a'', 1)] [(''id'', JNum 1), (''a'', JNum 1)]) Absent Absent)
       (Node (leaf [(''a'', 1)] [(''id'', JNum 3), (''a'', JNum 3)]) Absent Absent)"
    by code_simp
  have r: "remove (Node ((leaf [(''a'', 1)] [(''id'', JNum 2), (''a'', JNum 2)])\<lparr>f_primaryKey := Some ''id''\<rparr>)
       (Node (leaf [(''a'', 1)] [(''id'', JNum 1), (''a'', JNum 1)]) Absent Absent)
       (Node (leaf [(''a'', 1)] [(''id'', JNum 3), (''a'', JNum 3)]) Absent Absent))
       [(''id'', JNum 2), (''a'', JNum 2)]
     = Inr (True, Node ((leaf [(''a'', 1)] [(''id'', JNum 1), (''a'', JNum 1)])
                         \<lparr>f_primaryKey := Some ''id'', f_hash := JNum 2\<rparr>) Absent Absent)"
    by code_simp
  have s: "(case priv_remove_store (Map.empty
        (0 \<mapsto> \<lparr>o_fields = (leaf [(''a'', 1)] [(''id'', JNum 2), (''a'', JNum 2)])
                              \<lparr>f_primaryKey := Some ''id''\<rparr>,
                o_left = Some 1, o_right = Some 2\<rparr>,
         1 \<mapsto> \<lparr>o_fields = leaf [(''a'', 1)] [(''id'', JNum 1), (''a'', JNum 1)],
                o_left = None, o_right = None\<rparr>,
         2 \<mapsto> \<lparr>o_fields = leaf [(''a'', 1)] [(''id'', JNum 3), (''a'', JNum 3)],
                o_left = None, o_right = None\<rparr>)) 0 of
       None \<Rightarrow> False
     | Some (b, h') \<Rightarrow> b \<and> map_option o_right (h' 0) = Some None
          \<and> map_option o_right (h' 1) = Some (Some 2)
          \<and> rep h' (Some 0)
               (Node ((leaf [(''a'', 1)] [(''id'', JNum 1), (''a'', JNum 1)])
                         \<lparr>f_primaryKey := Some ''id'', f_hash := JNum 2\<rparr>) Absent Absent))"
    by (simp add: priv_remove_store_def rightMost_store.simps rep_Node leaf_def parse_def
          property_def)
  have rp: "rep (Map.empty
        (0 \<mapsto> \<lparr>o_fields = (leaf [(''a'', 1)] [(''id'', JNum 2), (''a'', JNum 2)])
                              \<lparr>f_primaryKey := Some ''id''\<rparr>,
                o_left = Some 1, o_right = Some 2\<rparr>,
         1 \<mapsto> \<lparr>o_fields = leaf [(''a'', 1)] [(''id'', JNum 1), (''a'', JNum 1)],
                o_left = None, o_right = None\<rparr>,
         2 \<mapsto> \<lparr>o_fields = leaf [(''a'', 1)] [(''id'', JNum 3), (''a'', JNum 3)],
                o_left = None, o_right = None\<rparr>)) (Some 0)
       (Node ((leaf [(''a'', 1)] [(''id'', JNum 2), (''a'', JNum 2)])\<lparr>f_primaryKey := Some ''id''\<rparr>)
       (Node (leaf [(''a'', 1)] [(''id'', JNum 1), (''a'', JNum 1)]) Absent Absent)
       (Node (leaf [(''a'', 1)] [(''id'', JNum 3), (''a'', JNum 3)]) Absent Absent))"
    by (simp add: rep_Node)
  have a: "inOrder (Node ((leaf [(''a'', 1)] [(''id'', JNum 1), (''a'', JNum 1)])
                         \<lparr>f_primaryKey := Some ''id'', f_hash := JNum 2\<rparr>) Absent Absent) ''data'' []
      = [Plain (JObj [(''id'', JNum 1), (''a'', JNum 1)])]"
    "lookup (Node ((leaf [(''a'', 1)] [(''id'', JNum 1), (''a'', JNum 1)])
                         \<lparr>f_primaryKey := Some ''id'', f_hash := JNum 2\<rparr>) Absent Absent)
        [(''id'', JNum 3), (''a'', JNum 3)] [] = []"
    by code_simp+
  have b: "returned (remove (tree_after (build [(''a'', 1)] (Some ''id'')
       [[(''id'', JNum 1), (''a'', JNum 2)], [(''id'', JNum 2), (''a'', JNum 1)],
        [(''id'', JNum 3), (''a'', JNum 0)]])) [(''id'', JNum 3), (''a'', JNum 0)]) = Some True"
    "lookup (tree_after (remove (tree_after (build [(''a'', 1)] (Some ''id'')
       [[(''id'', JNum 1), (''a'', JNum 2)], [(''id'', JNum 2), (''a'', JNum 1)],
        [(''id'', JNum 3), (''a'', JNum 0)]])) [(''id'', JNum 3), (''a'', JNum 0)]))
        [(''id'', JNum 3), (''a'', JNum 0)] [] = [JObj [(''id'', JNum 3), (''a'', JNum 0)]]"
    "inOrder (tree_after (remove (tree_after (build [(''a'', 1)] (Some ''id'')
       [[(''id'', JNum 1), (''a'', JNum 2)], [(''id'', JNum 2), (''a'', JNum 1)],
        [(''id'', JNum 3), (''a'', JNum 0)]])) [(''id'', JNum 3), (''a'', JNum 0)])) ''data'' []
      = [Plain (JObj [(''id'', JNum 3), (''a'', JNum 0)]),
         Plain (JObj [(''id'', JNum 1), (''a'', JNum 2)])]"
    by code_simp+
  show ?thesis
    unfolding t r
    using s rp a b by (simp only: tree_after_def returned_def sum.case prod.case simp_thms)
qed


section \<open>Exceptions\<close>

text \<open>
  C7 fails on the code. \<open>startsWith\<close> calls \<open>substr\<close> on the resolved field value, so
  it throws a TypeError on a tree that holds a document without the field (the resolved
  value is undefined), also when other documents have it; \<open>inOrder\<close> and
  \<open>findRange\<close> on the same tree return. \<open>remove\<close> on a new tree without a payload
  throws as well, on \<open>this._data[pk]\<close>.
\<close>

theorem startsWith_throws_on_missing_field:
  "startsWith (tree_after (build [(''a'', 1)] None [[(''a'', JNum 1)]])) ''name'' ''x'' emptyArr
     = Inl TypeError
   \<and> get (JObj [(''a'', JNum 1)]) ''name'' = JUndefined
   \<and> startsWith (tree_after (build [(''name'', 1)] None
        [[(''name'', JStr ''xy'')], [(''name'', JStr ''xz''), (''a'', JNum 1)], [(''a'', JNum 2)]]))
        ''name'' ''x'' emptyArr
     = Inl TypeError
   \<and> inOrder (tree_after (build [(''name'', 1)] None
        [[(''name'', JStr ''xy'')], [(''name'', JStr ''xz''), (''a'', JNum 1)], [(''a'', JNum 2)]]))
        ''data'' []
     = [Plain (JObj [(''a'', JNum 2)]), Plain (JObj [(''name'', JStr ''xy'')]),
        Plain (JObj [(''name'', JStr ''xz''), (''a'', JNum 1)])]
   \<and> findRange (tree_after (build [(''name'', 1)] None
        [[(''name'', JStr ''xy'')], [(''name'', JStr ''xz''), (''a'', JNum 1)], [(''a'', JNum 2)]]))
        ''data'' ''name'' (JStr ''x'') (JStr ''y'') []
     = [Plain (JObj [(''name'', JStr ''xy'')]), Plain (JObj [(''name'', JStr ''xz''), (''a'', JNum 1)])]
   \<and> BinaryTree None (Some [(''a'', 1)]) (Some ''id'')
     = Inr (Node (fresh_node\<lparr>f_primaryKey := Some ''id'', f_index := Some [(''a'', 1)],
                               f_keys := parse [(''a'', 1)]\<rparr>) Absent Absent)
   \<and> remove (Node (fresh_node\<lparr>f_primaryKey := Some ''id'', f_index := Some [(''a'', 1)],
                               f_keys := parse [(''a'', 1)]\<rparr>) Absent Absent)
        [(''id'', JNum 1), (''a'', JNum 1)]
     = Inl TypeError"
  by code_simp

section \<open>Decoding what was encoded\<close>

lemma occurs_iff: "occurs sep s \<longleftrightarrow> (\<exists>k \<le> length s. take (length sep) (drop k s) = sep)"
  unfolding occurs_def list_ex_iff set_upt
  by (auto simp: less_Suc_eq_le)

lemma occurs_tl: "s \<noteq> [] \<Longrightarrow> occurs sep (tl s) \<Longrightarrow> occurs sep s"
proof -
  assume s: "s \<noteq> []" and "occurs sep (tl s)"
  then obtain k where k: "k \<le> length (tl s)" "take (length sep) (drop k (tl s)) = sep"
    by (auto simp: occurs_iff)
  from s obtain x xs where xs: "s = x # xs" by (cases s) auto
  with k have "Suc k \<le> length s" "take (length sep) (drop (Suc k) s) = sep" by simp_all
  then show ?thesis unfolding occurs_iff by blast
qed

lemma split_from_no_occurrence:
  "\<not> occurs sep s \<Longrightarrow> split_from sep cur s = [cur @ s]"
proof (induction sep cur s rule: split_from.induct)
  case (1 sep cur s)
  show ?case
  proof (cases "s = []")
    case True
    then show ?thesis by simp
  next
    case False
    from 1(3) have "take (length sep) (drop 0 s) \<noteq> sep"
      unfolding occurs_iff by blast
    then have ne: "take (length sep) s \<noteq> sep" by simp
    from 1(3) occurs_tl [OF False] have "\<not> occurs sep (tl s)" by blast
    with 1(2) False ne have "split_from sep (cur @ [hd s]) (tl s) = [(cur @ [hd s]) @ tl s]"
      by simp
    with False ne show ?thesis
      by (subst split_from.simps) simp
  qed
qed

lemma split_from_Cons:
  "split_from sep cur (x # xs) =
     (if sep \<noteq> [] \<and> take (length sep) (x # xs) = sep
      then cur # split_from sep [] (drop (length sep) (x # xs))
      else split_from sep (cur @ [x]) xs)"
  by (subst split_from.simps) simp

lemma split_encoded_json:
  assumes "\<not> occurs ''::fdb::'' t"
  shows "split_str (''json::fdb::'' @ t) ''::fdb::'' = [''json'', t]"
proof -
  have "split_from ''::fdb::'' [] (''json::fdb::'' @ t) = ''json'' # split_from ''::fdb::'' [] t"
    by (simp add: split_from_Cons del: split_from.simps)
  then show ?thesis
    by (simp only: split_str_def split_from_no_occurrence [OF assms] append_Nil)
qed

text \<open>
  Where the JSON text of an object, array or \<open>null\<close> does not contain the separator,
  the decode step hands \<open>jParse\<close> exactly that text.
\<close>

lemma decode_encode_without_separator:
  assumes "typeof_object v" "\<not> occurs ''::fdb::'' (jStringify v)"
  shows "priv_decode jParse (fst (priv_encode v m)) m' =
     (case jParse (JStr (jStringify v)) of Inl e \<Rightarrow> Inl e | Inr d \<Rightarrow> Inr (d, set_found d m'))"
proof -
  have e: "fst (priv_encode v m) = ''json::fdb::'' @ jStringify v"
    using assms(1) by (simp add: priv_encode_def Let_def)
  have n: "''json::fdb::'' @ jStringify v \<noteq> []" by simp
  show ?thesis
    unfolding e priv_decode_def split_encoded_json [OF assms(2)] if_P [OF n]
    by (simp add: Let_def)
qed

text \<open>
  C10 fails on the code. The object \<open>{a: 'x::fdb::y'}\<close> is encoded as
  \<open>json::fdb::\<close> followed by its JSON text, which contains the separator; the decode
  step splits the encoded string at every separator and hands \<open>jParse\<close> the second
  piece only, the text up to the separator inside the string value, which is not the
  JSON text of the object (and not a JSON text at all).
\<close>

theorem decode_parses_up_to_the_separator:
  \<open>fst (priv_encode (JObj [(''a'', JStr ''x::fdb::y'')]) m) = ''json::fdb::{"a":"x::fdb::y"}''
   \<and> jStringify (JObj [(''a'', JStr ''x::fdb::y'')]) = ''{"a":"x::fdb::y"}''
   \<and> priv_decode jParse (fst (priv_encode (JObj [(''a'', JStr ''x::fdb::y'')]) m)) m'
      = (case jParse (JStr ''{"a":"x'') of
           Inl e \<Rightarrow> Inl e | Inr d \<Rightarrow> Inr (d, set_found d m'))\<close>
  by (simp add: priv_decode_def priv_encode_def Let_def typeof_object_def quote_def
        escape_char_def split_str_def split_from_Cons del: split_from.simps)

end
